theory Spec2Isabelle
  imports Complex_Main "HOL-Library.Word"
begin

unbundle bit_operations_syntax

section \<open>The lmem allocator (src/lmem.c) as state-passing functions\<close>

text \<open>
  The model follows \<^verbatim>\<open>src/lmem.c\<close> function by function, for an LP64 target:
  \<^verbatim>\<open>size_t\<close> and pointers are 64-bit words, so \<^verbatim>\<open>struct memblk_t\<close> (four such fields)
  has \<^verbatim>\<open>sizeof\<close> 32, and arithmetic on a \<^verbatim>\<open>struct memblk_t *\<close> moves in steps of 32 bytes.

  Memory is an explicit store with two components: the block headers, read and written
  field by field at the address of the header, and the payload bytes that \<^verbatim>\<open>memset\<close> and
  \<^verbatim>\<open>memcpy\<close> touch. Two headers at different addresses are independent objects, and a
  payload byte is never part of a header: the encoding of a header into bytes, and
  accesses that fault because an address is not mapped, are outside this model.

  So \<open>bytes\<close> describes the usable regions of the blocks, and \<open>memset\<close> and \<open>memcpy\<close>
  below are what the program does as long as the bytes they read and write lie in usable
  regions. Where the program would read or write beyond one (the header of the next
  block, or memory that is not mapped), the store says nothing about the program. The
  theorems about bytes are therefore stated for accesses inside usable regions only: they
  prove that the bytes written fit in the block written to (\<open>usable_size\<close>), and they
  speak of the bytes read only where these lie in the block read from.
\<close>

type_synonym addr = "64 word"

record memblk_t =
  isfree :: "64 word"
  size_f :: "64 word"
  prev_f :: addr
  next_f :: addr

text \<open>The field names \<^verbatim>\<open>size\<close>, \<^verbatim>\<open>prev\<close> and \<^verbatim>\<open>next\<close> of the source carry the suffix \<open>_f\<close>.\<close>

definition sizeof_memblk :: "64 word" where
  "sizeof_memblk = 32"

definition LMEM_PAGESIZE :: "64 word" where
  "LMEM_PAGESIZE = 4096"

definition LMEM_NEXT_MMAP :: addr where
  "LMEM_NEXT_MMAP = - 1"

definition LMEM_MMAP_TRESHOLD :: "64 word" where
  "LMEM_MMAP_TRESHOLD = LMEM_PAGESIZE * 16"

definition MAP_FAILED :: addr where
  "MAP_FAILED = - 1"

definition BRK_FAILED :: addr where
  "BRK_FAILED = - 1"

text \<open>\<^verbatim>\<open>p + n\<close> and \<^verbatim>\<open>p - n\<close> for \<^verbatim>\<open>struct memblk_t *p\<close>: the address moves by whole headers,
  and wraps around as 64-bit arithmetic does.\<close>

definition blk_add :: "addr \<Rightarrow> 64 word \<Rightarrow> addr" where
  "blk_add p n = p + sizeof_memblk * n"

definition blk_sub :: "addr \<Rightarrow> 64 word \<Rightarrow> addr" where
  "blk_sub p n = p - sizeof_memblk * n"

subsection \<open>The operating system\<close>

text \<open>
  The four system calls are external to the repository. They are parameters of the model:
  state-passing functions over an abstract OS state \<open>'o\<close>, each returning what the call
  returns to the C code. \<open>sys_brk\<close> is the wrapper \<^verbatim>\<open>_brk\<close>, \<open>sys_mmap len\<close> is
  \<^verbatim>\<open>mmap (NULL, len, PROT_READ | PROT_WRITE, MAP_PRIVATE | MAP_ANONYMOUS, -1, 0)\<close>,
  \<open>sys_munmap base len\<close> is \<^verbatim>\<open>munmap\<close> (its result is ignored by the code), and
  \<open>sys_mremap base old_len new_len\<close> is \<^verbatim>\<open>mremap\<close> with \<^verbatim>\<open>MREMAP_MAYMOVE\<close>.
\<close>

record 'o os_calls =
  sys_brk :: "addr \<Rightarrow> 'o \<Rightarrow> addr \<times> 'o"
  sys_mmap :: "64 word \<Rightarrow> 'o \<Rightarrow> addr \<times> 'o"
  sys_munmap :: "addr \<Rightarrow> 64 word \<Rightarrow> 'o \<Rightarrow> 'o"
  sys_mremap :: "addr \<Rightarrow> 64 word \<Rightarrow> 64 word \<Rightarrow> 'o \<Rightarrow> addr \<times> 'o"

subsection \<open>The allocator state\<close>

record 'o lmem =
  head :: addr
  tail :: addr
  last_break :: addr
  hdr :: "addr \<Rightarrow> memblk_t"
  bytes :: "addr \<Rightarrow> 8 word"
  os :: 'o

text \<open>The four assignments to a header field, \<^verbatim>\<open>a->isfree = v\<close> and so on.\<close>

definition st_isfree :: "addr \<Rightarrow> 64 word \<Rightarrow> 'o lmem \<Rightarrow> 'o lmem" where
  "st_isfree a v s = s\<lparr>hdr := (hdr s)(a := (hdr s a)\<lparr>isfree := v\<rparr>)\<rparr>"

definition st_size :: "addr \<Rightarrow> 64 word \<Rightarrow> 'o lmem \<Rightarrow> 'o lmem" where
  "st_size a v s = s\<lparr>hdr := (hdr s)(a := (hdr s a)\<lparr>size_f := v\<rparr>)\<rparr>"

definition st_prev :: "addr \<Rightarrow> addr \<Rightarrow> 'o lmem \<Rightarrow> 'o lmem" where
  "st_prev a v s = s\<lparr>hdr := (hdr s)(a := (hdr s a)\<lparr>prev_f := v\<rparr>)\<rparr>"

definition st_next :: "addr \<Rightarrow> addr \<Rightarrow> 'o lmem \<Rightarrow> 'o lmem" where
  "st_next a v s = s\<lparr>hdr := (hdr s)(a := (hdr s a)\<lparr>next_f := v\<rparr>)\<rparr>"

text \<open>\<^verbatim>\<open>memset (dst, c, n)\<close> and \<^verbatim>\<open>memcpy (dst, src, n)\<close> on the payload bytes. An address
  \<open>a\<close> lies in the \<open>n\<close> bytes from \<open>dst\<close> when its offset \<open>a - dst\<close> is below \<open>n\<close>.\<close>

definition memset :: "addr \<Rightarrow> 8 word \<Rightarrow> 64 word \<Rightarrow> (addr \<Rightarrow> 8 word) \<Rightarrow> (addr \<Rightarrow> 8 word)" where
  "memset dst c n m = (\<lambda>a. if a - dst < n then c else m a)"

definition memcpy :: "addr \<Rightarrow> addr \<Rightarrow> 64 word \<Rightarrow> (addr \<Rightarrow> 8 word) \<Rightarrow> (addr \<Rightarrow> 8 word)" where
  "memcpy dst src n m = (\<lambda>a. if a - dst < n then m (src + (a - dst)) else m a)"

subsection \<open>new_memblk\<close>

definition new_memblk :: "'o os_calls \<Rightarrow> 64 word \<Rightarrow> 'o lmem \<Rightarrow> addr \<times> 'o lmem" where
  "new_memblk K sz s =
     (let s1 = (if last_break s = 0
                then (case sys_brk K 0 (os s) of (b, o1) \<Rightarrow> s\<lparr>last_break := b, os := o1\<rparr>)
                else s);
          s2 = (case sys_brk K (blk_add (last_break s1) sz) (os s1) of
                  (b, o2) \<Rightarrow> s1\<lparr>last_break := b, os := o2\<rparr>)
      in if last_break s2 = BRK_FAILED then (BRK_FAILED, s2)
         else (blk_sub (last_break s2) sz, s2))"

subsection \<open>lmem_split_block\<close>

definition lmem_split_block :: "addr \<Rightarrow> 64 word \<Rightarrow> 'o lmem \<Rightarrow> 'o lmem" where
  "lmem_split_block block sz s =
     (let upper = blk_add block sz;
          s1 = st_isfree upper 1 s;
          s2 = st_size upper (size_f (hdr s1 block) - sz) s1;
          s3 = st_size block sz s2;
          s4 = st_prev upper block s3;
          s5 = st_next upper (next_f (hdr s4 block)) s4;
          s6 = (if next_f (hdr s5 block) \<noteq> 0
                then st_prev (next_f (hdr s5 block)) upper s5
                else s5\<lparr>tail := upper\<rparr>)
      in st_next block upper s6)"

subsection \<open>lmalloc_new_block\<close>

text \<open>The result is the pair of the returned pointer (0 is \<^verbatim>\<open>NULL\<close>) and the new state.\<close>

definition lmalloc_new_block :: "'o os_calls \<Rightarrow> 64 word \<Rightarrow> 'o lmem \<Rightarrow> addr \<times> 'o lmem" where
  "lmalloc_new_block K sz s =
     (case new_memblk K sz s of (block, s0) \<Rightarrow>
        if block = BRK_FAILED then (0, s0)
        else
          let s1 = st_isfree block 0 s0;
              s2 = st_size block sz s1;
              s3 = st_prev block (tail s2) s2;
              s4 = st_next block 0 s3;
              s5 = (if head s4 = 0 then s4\<lparr>head := block\<rparr> else s4);
              s6 = (if tail s5 \<noteq> 0 then st_next (tail s5) block s5 else s5)
          in (blk_add block 1, s6\<lparr>tail := block\<rparr>))"

subsection \<open>lmalloc\<close>

definition mmap_len :: "64 word \<Rightarrow> 64 word" where
  "mmap_len len = (len + sizeof_memblk + LMEM_PAGESIZE - 1) AND NOT (LMEM_PAGESIZE - 1)"

definition block_units :: "64 word \<Rightarrow> 64 word" where
  "block_units len = (len + sizeof_memblk - 1) div sizeof_memblk + 1"

text \<open>The body of the \<^verbatim>\<open>for\<close> loop of \<^verbatim>\<open>lmalloc\<close> once a block fits: split it when it is
  larger than needed, mark it in use, return the address behind its header.\<close>

definition take_block :: "addr \<Rightarrow> 64 word \<Rightarrow> 'o lmem \<Rightarrow> addr \<times> 'o lmem" where
  "take_block block sz s =
     (let s1 = (if sz < size_f (hdr s block) then lmem_split_block block sz s else s)
      in (blk_add block 1, st_isfree block 0 s1))"

text \<open>The \<^verbatim>\<open>for\<close> loop of \<^verbatim>\<open>lmalloc\<close>, from the block it has reached. It follows \<^verbatim>\<open>next\<close>
  links for as long as they are not \<^verbatim>\<open>NULL\<close>, so on a cyclic list without a fitting block
  it does not return: the value is \<open>None\<close> then.\<close>

partial_function (option) lmalloc_scan ::
  "'o os_calls \<Rightarrow> 64 word \<Rightarrow> addr \<Rightarrow> 'o lmem \<Rightarrow> (addr \<times> 'o lmem) option" where
  "lmalloc_scan K sz block s =
     (if block = 0 then Some (lmalloc_new_block K sz s)
      else if isfree (hdr s block) \<noteq> 0 \<and> sz \<le> size_f (hdr s block) then Some (take_block block sz s)
      else lmalloc_scan K sz (next_f (hdr s block)) s)"

definition lmalloc :: "'o os_calls \<Rightarrow> 64 word \<Rightarrow> 'o lmem \<Rightarrow> (addr \<times> 'o lmem) option" where
  "lmalloc K len s =
     (if LMEM_MMAP_TRESHOLD \<le> len then
        (case sys_mmap K (mmap_len len) (os s) of (block, o1) \<Rightarrow>
           if block = MAP_FAILED then Some (0, s\<lparr>os := o1\<rparr>)
           else Some (blk_add block 1,
                      st_size block (mmap_len len) (st_next block LMEM_NEXT_MMAP (s\<lparr>os := o1\<rparr>))))
      else lmalloc_scan K (block_units len) (head s) s)"

subsection \<open>lcalloc\<close>

definition lcalloc :: "'o os_calls \<Rightarrow> 64 word \<Rightarrow> 64 word \<Rightarrow> 'o lmem \<Rightarrow> (addr \<times> 'o lmem) option" where
  "lcalloc K nlen len s =
     (let sz = nlen * len in
      case lmalloc K sz s of
        None \<Rightarrow> None
      | Some (result, s1) \<Rightarrow>
          if result \<noteq> 0 then Some (result, s1\<lparr>bytes := memset result 0 sz (bytes s1)\<rparr>)
          else Some (result, s1))"

subsection \<open>lfree_left_merge and lfree\<close>

definition lfree_left_merge :: "addr \<Rightarrow> 'o lmem \<Rightarrow> 'o lmem" where
  "lfree_left_merge block s =
     (if prev_f (hdr s block) \<noteq> 0 \<and> isfree (hdr s (prev_f (hdr s block))) \<noteq> 0 then
        let s1 = st_next (prev_f (hdr s block)) (next_f (hdr s block)) s;
            s2 = (if next_f (hdr s1 block) \<noteq> 0
                  then st_prev (next_f (hdr s1 block)) (prev_f (hdr s1 block)) s1
                  else s1\<lparr>tail := prev_f (hdr s1 block)\<rparr>)
        in st_size (prev_f (hdr s2 block))
             (size_f (hdr s2 (prev_f (hdr s2 block))) + size_f (hdr s2 block)) s2
      else st_isfree block 1 s)"

definition lfree :: "'o os_calls \<Rightarrow> addr \<Rightarrow> 'o lmem \<Rightarrow> 'o lmem" where
  "lfree K addr s =
     (let block = blk_sub addr 1 in
      if addr = 0 then s
      else if next_f (hdr s block) = LMEM_NEXT_MMAP then
        s\<lparr>os := sys_munmap K block (size_f (hdr s block)) (os s)\<rparr>
      else
        let s1 = lfree_left_merge block s in
        if next_f (hdr s1 block) \<noteq> 0 \<and> isfree (hdr s1 (next_f (hdr s1 block))) \<noteq> 0
        then lfree_left_merge (next_f (hdr s1 block)) s1
        else s1)"

subsection \<open>lrealloc\<close>

text \<open>
  A successful \<^verbatim>\<open>mremap\<close> leaves the contents of the old mapping, up to the smaller of the
  two lengths, at the base it returns: the header that was at \<open>old\<close> is then read at \<open>new\<close>,
  and so are the payload bytes behind it. This is the system call's effect on memory.
\<close>

definition mremap_moved :: "addr \<Rightarrow> 64 word \<Rightarrow> addr \<Rightarrow> 64 word \<Rightarrow> 'o lmem \<Rightarrow> 'o lmem" where
  "mremap_moved old old_len new new_len s =
     s\<lparr>hdr := (hdr s)(new := hdr s old),
       bytes := (\<lambda>a. if sizeof_memblk \<le> a - new \<and> a - new < min old_len new_len
                     then bytes s (old + (a - new)) else bytes s a)\<rparr>"

definition lrealloc :: "'o os_calls \<Rightarrow> addr \<Rightarrow> 64 word \<Rightarrow> 'o lmem \<Rightarrow> (addr \<times> 'o lmem) option" where
  "lrealloc K addr len s =
     (let block = blk_sub addr 1 in
      if addr = 0 then lmalloc K len s
      else if next_f (hdr s block) = LMEM_NEXT_MMAP then
        (case sys_mremap K block (size_f (hdr s block)) (mmap_len len) (os s) of (nb, o1) \<Rightarrow>
           if nb = MAP_FAILED then Some (0, s\<lparr>os := o1\<rparr>)
           else Some (blk_add nb 1,
                      st_size nb (mmap_len len)
                        (mremap_moved block (size_f (hdr s block)) nb (mmap_len len)
                           (s\<lparr>os := o1\<rparr>))))
      else
        (case lmalloc K len s of
           None \<Rightarrow> None
         | Some (newblock, s1) \<Rightarrow>
             if newblock = 0 then Some (0, s1)
             else Some (newblock,
                        lfree K addr (s1\<lparr>bytes := memcpy newblock addr len (bytes s1)\<rparr>))))"

subsection \<open>The initial state and a stand-in for the operating system\<close>

text \<open>The C statics start as zero. The contents of memory are arbitrary then; the
  initial state takes zeros.\<close>

definition lmem_init :: "'o \<Rightarrow> 'o lmem" where
  "lmem_init w =
     \<lparr>head = 0, tail = 0, last_break = 0,
      hdr = (\<lambda>_. \<lparr>isfree = 0, size_f = 0, prev_f = 0, next_f = 0\<rparr>),
      bytes = (\<lambda>_. 0), os = w\<rparr>"

text \<open>
  A small deterministic operating system, used to run the model on concrete inputs. The
  break can be moved up to \<open>max_brk\<close>; a request above it fails with -1. Mappings are
  handed out at increasing addresses from \<open>next_map\<close> while \<open>maps_left\<close> is positive.
  A remap that does not grow stays in place, one that grows moves to \<open>next_map\<close>.
\<close>

record stub_os =
  cur_brk :: addr
  max_brk :: addr
  next_map :: addr
  maps_left :: nat

definition stub :: "stub_os os_calls" where
  "stub =
     \<lparr>sys_brk = (\<lambda>a w. if a = 0 then (cur_brk w, w)
                       else if cur_brk w \<le> a \<and> a \<le> max_brk w then (a, w\<lparr>cur_brk := a\<rparr>)
                       else (BRK_FAILED, w)),
      sys_mmap = (\<lambda>len w. if maps_left w = 0 \<or> len = 0 then (MAP_FAILED, w)
                         else (next_map w,
                               w\<lparr>next_map := next_map w + len, maps_left := maps_left w - 1\<rparr>)),
      sys_munmap = (\<lambda>b len w. w\<lparr>maps_left := maps_left w + 1\<rparr>),
      sys_mremap = (\<lambda>b old_len new_len w.
                      if new_len = 0 \<or> maps_left w = 0 then (MAP_FAILED, w)
                      else if new_len \<le> old_len then (b, w)
                      else (next_map w, w\<lparr>next_map := next_map w + new_len\<rparr>))\<rparr>"

definition stub_os0 :: stub_os where
  "stub_os0 = \<lparr>cur_brk = 0x10000, max_brk = 0x20000, next_map = 0x7f0000000000, maps_left = 4\<rparr>"

text \<open>The same system with no memory left: the break cannot move and no mapping is granted.\<close>

definition stub_os_full :: stub_os where
  "stub_os_full = \<lparr>cur_brk = 0x10000, max_brk = 0x10000, next_map = 0x7f0000000000, maps_left = 0\<rparr>"

section \<open>The block list and its invariants\<close>

text \<open>
  \<open>bpath h pv p bs q\<close>: following \<^verbatim>\<open>next\<close> from \<open>p\<close> visits exactly the headers \<open>bs\<close>, none of
  them \<^verbatim>\<open>NULL\<close>, and arrives at \<open>q\<close>; each \<^verbatim>\<open>prev\<close> points to the header before it, and the
  first one to \<open>pv\<close>. The block list of a state is the path from \<^verbatim>\<open>head\<close> to \<^verbatim>\<open>NULL\<close>.
\<close>

fun bpath :: "(addr \<Rightarrow> memblk_t) \<Rightarrow> addr \<Rightarrow> addr \<Rightarrow> addr list \<Rightarrow> addr \<Rightarrow> bool" where
  "bpath h pv p [] q = (p = q)"
| "bpath h pv p (b # bs) q =
     (p = b \<and> b \<noteq> 0 \<and> prev_f (h b) = pv \<and> bpath h b (next_f (h b)) bs q)"

definition blist :: "(addr \<Rightarrow> memblk_t) \<Rightarrow> addr \<Rightarrow> addr list \<Rightarrow> bool" where
  "blist h p bs = bpath h 0 p bs 0"

text \<open>The address one past a heap block, as a number: sizes of heap blocks count headers.\<close>

definition block_end :: "(addr \<Rightarrow> memblk_t) \<Rightarrow> addr \<Rightarrow> nat" where
  "block_end h b = unat b + 32 * unat (size_f (h b))"

text \<open>
  Invariant 1 of the specification: a block ends where its successor starts. The ends are
  computed without wrap-around and no block is empty, so addresses ascend along the list.
\<close>

fun contiguous :: "(addr \<Rightarrow> memblk_t) \<Rightarrow> addr list \<Rightarrow> bool" where
  "contiguous h [] = True"
| "contiguous h [b] = (size_f (h b) \<noteq> 0 \<and> block_end h b < 2 ^ 64)"
| "contiguous h (b # c # bs) =
     (size_f (h b) \<noteq> 0 \<and> block_end h b = unat c \<and> contiguous h (c # bs))"

text \<open>The same for a stretch of the list that is followed by a block at address \<open>e\<close>.\<close>

fun ctg :: "(addr \<Rightarrow> memblk_t) \<Rightarrow> addr list \<Rightarrow> nat \<Rightarrow> bool" where
  "ctg h [] e = True"
| "ctg h (b # bs) e =
     (size_f (h b) \<noteq> 0 \<and> block_end h b = (if bs = [] then e else unat (hd bs)) \<and> ctg h bs e)"

text \<open>Invariant 2 of the specification: no two neighbours of the list are both free.\<close>

fun no_adjacent_free :: "(addr \<Rightarrow> memblk_t) \<Rightarrow> addr list \<Rightarrow> bool" where
  "no_adjacent_free h (b # c # bs) =
     ((isfree (h b) = 0 \<or> isfree (h c) = 0) \<and> no_adjacent_free h (c # bs))"
| "no_adjacent_free h bs = True"

text \<open>A well-formed heap: \<open>bs\<close> is the block list from \<^verbatim>\<open>head\<close>, \<^verbatim>\<open>tail\<close> is its last block
  (\<^verbatim>\<open>NULL\<close> when there is none), and invariant 1 holds.\<close>

definition heap_ok :: "'o lmem \<Rightarrow> addr list \<Rightarrow> bool" where
  "heap_ok s bs =
     (blist (hdr s) (head s) bs \<and> tail s = last (0 # bs) \<and> contiguous (hdr s) bs)"

text \<open>The test of the scan in \<^verbatim>\<open>lmalloc\<close>: the block is free and has at least \<open>sz\<close> units.\<close>

definition fits :: "(addr \<Rightarrow> memblk_t) \<Rightarrow> 64 word \<Rightarrow> addr \<Rightarrow> bool" where
  "fits h sz b = (isfree (h b) \<noteq> 0 \<and> sz \<le> size_f (h b))"

text \<open>A pointer to the usable region of a block of the list that is in use.\<close>

definition heap_resident :: "'o lmem \<Rightarrow> addr list \<Rightarrow> addr \<Rightarrow> bool" where
  "heap_resident s bs p = (blk_sub p 1 \<in> set bs \<and> isfree (hdr s (blk_sub p 1)) = 0)"

text \<open>
  What the allocator relies on from the system for a request of \<open>len\<close> bytes in state \<open>s\<close>:
  a mapping is not placed on a header of the block list, and when the break moves, the
  new region starts where the last block ends and does not wrap around.
\<close>

definition os_grants_fresh :: "'o os_calls \<Rightarrow> 'o lmem \<Rightarrow> addr list \<Rightarrow> 64 word \<Rightarrow> bool" where
  "os_grants_fresh K s bs len =
     (if LMEM_MMAP_TRESHOLD \<le> len then fst (sys_mmap K (mmap_len len) (os s)) \<notin> set bs
      else (let blk = fst (new_memblk K (block_units len) s)
            in blk = BRK_FAILED \<or>
               (blk \<noteq> 0 \<and> unat blk + 32 * unat (block_units len) < 2 ^ 64 \<and>
                (bs = [] \<or> block_end (hdr s) (last bs) = unat blk))))"

text \<open>
  The state \<open>s'\<close> with block list \<open>bs'\<close> after an allocation in \<open>s\<close> with block list \<open>bs\<close>
  that returned \<open>p\<close>: the heap is well formed with invariant 2, no payload byte changed,
  every block is still there and the blocks in use are still in use, and \<open>p\<close> is not a
  pointer that was live before.
\<close>

definition alloc_post :: "'o lmem \<Rightarrow> addr list \<Rightarrow> addr \<Rightarrow> 'o lmem \<Rightarrow> addr list \<Rightarrow> bool" where
  "alloc_post s bs p s' bs' =
     (heap_ok s' bs' \<and> no_adjacent_free (hdr s') bs' \<and> bytes s' = bytes s \<and>
      set bs \<subseteq> set bs' \<and> (\<forall>x\<in>set bs. isfree (hdr s x) = 0 \<longrightarrow> isfree (hdr s' x) = 0) \<and>
      \<not> heap_resident s bs p)"

text \<open>
  Coalescing on release of block \<open>b\<close> of the list \<open>xs @ b # ys\<close>: whether its left and right
  neighbours are free, the block that holds the freed memory afterwards, the block list
  afterwards, and the size of the merged block.
\<close>

definition left_free :: "(addr \<Rightarrow> memblk_t) \<Rightarrow> addr list \<Rightarrow> bool" where
  "left_free h xs = (xs \<noteq> [] \<and> isfree (h (last xs)) \<noteq> 0)"

definition right_free :: "(addr \<Rightarrow> memblk_t) \<Rightarrow> addr list \<Rightarrow> bool" where
  "right_free h ys = (ys \<noteq> [] \<and> isfree (h (hd ys)) \<noteq> 0)"

definition merged_block :: "(addr \<Rightarrow> memblk_t) \<Rightarrow> addr list \<Rightarrow> addr \<Rightarrow> addr" where
  "merged_block h xs b = (if left_free h xs then last xs else b)"

definition coalesced_list :: "(addr \<Rightarrow> memblk_t) \<Rightarrow> addr list \<Rightarrow> addr \<Rightarrow> addr list \<Rightarrow> addr list" where
  "coalesced_list h xs b ys =
     (if left_free h xs then butlast xs else xs) @ merged_block h xs b #
     (if right_free h ys then tl ys else ys)"

definition coalesced_size :: "(addr \<Rightarrow> memblk_t) \<Rightarrow> addr list \<Rightarrow> addr \<Rightarrow> addr list \<Rightarrow> 64 word" where
  "coalesced_size h xs b ys =
     (if left_free h xs then size_f (h (last xs)) else 0) + size_f (h b) +
     (if right_free h ys then size_f (h (hd ys)) else 0)"

text \<open>The least multiple of the page size that is at least \<open>n\<close>, on the natural numbers.\<close>

definition page_round_up :: "nat \<Rightarrow> nat" where
  "page_round_up n = ((n + 4095) div 4096) * 4096"

text \<open>
  The usable bytes behind the header at \<open>b\<close> (invariant 4 of the specification): the size
  of a block of the heap counts headers, its own included; the size of a mapping counts
  bytes, those of its header included.
\<close>

definition usable_size :: "(addr \<Rightarrow> memblk_t) \<Rightarrow> addr \<Rightarrow> nat" where
  "usable_size h b =
     (if next_f (h b) = LMEM_NEXT_MMAP then unat (size_f (h b)) - 32
      else 32 * (unat (size_f (h b)) - 1))"

text \<open>An address lies in the heap block \<open>b\<close>, and it lies off the heap \<open>bs\<close>.\<close>

definition in_block :: "(addr \<Rightarrow> memblk_t) \<Rightarrow> addr \<Rightarrow> addr \<Rightarrow> bool" where
  "in_block h b x = (unat b \<le> unat x \<and> unat x < block_end h b)"

fun off_heap :: "(addr \<Rightarrow> memblk_t) \<Rightarrow> addr list \<Rightarrow> addr \<Rightarrow> bool" where
  "off_heap h [] x = True"
| "off_heap h (b # bs) x = (\<not> in_block h b x \<and> off_heap h bs x)"

text \<open>
  The mappings that are live, as the system knows them: a list of pairs of the base that
  \<^verbatim>\<open>mmap\<close> or \<^verbatim>\<open>mremap\<close> returned and the length it was called with. \<open>with_mapping\<close> and
  \<open>without_mapping\<close> are the effect of a successful \<^verbatim>\<open>mmap\<close> (or the new end of an
  \<^verbatim>\<open>mremap\<close>) and of \<^verbatim>\<open>munmap\<close> (or the old end of an \<^verbatim>\<open>mremap\<close>) on that list.
  \<open>mappings_ok\<close> is the property of claim C10: the header at the base of every live
  mapping carries the sentinel in \<^verbatim>\<open>next\<close> and the length of the mapping in \<^verbatim>\<open>size\<close>.
  \<open>mappings_off_heap\<close>: no live mapping starts inside a block of the heap.
\<close>

definition without_mapping :: "addr \<Rightarrow> (addr \<times> 64 word) list \<Rightarrow> (addr \<times> 64 word) list" where
  "without_mapping m M = filter (\<lambda>e. fst e \<noteq> m) M"

definition with_mapping :: "addr \<Rightarrow> 64 word \<Rightarrow> (addr \<times> 64 word) list \<Rightarrow> (addr \<times> 64 word) list" where
  "with_mapping m L M = (m, L) # without_mapping m M"

fun mappings_ok :: "(addr \<Rightarrow> memblk_t) \<Rightarrow> (addr \<times> 64 word) list \<Rightarrow> bool" where
  "mappings_ok h [] = True"
| "mappings_ok h (e # M) =
     (next_f (h (fst e)) = LMEM_NEXT_MMAP \<and> size_f (h (fst e)) = snd e \<and> mappings_ok h M)"

fun mappings_off_heap :: "(addr \<Rightarrow> memblk_t) \<Rightarrow> addr list \<Rightarrow> (addr \<times> 64 word) list \<Rightarrow> bool" where
  "mappings_off_heap h bs [] = True"
| "mappings_off_heap h bs (e # M) = (off_heap h bs (fst e) \<and> mappings_off_heap h bs M)"

text \<open>
  The address of the memory that the system hands out for a request of \<open>len\<close> bytes in
  state \<open>s\<close>: the base of the mapping, or the start of the new region of the heap (the
  failure value when the system refuses). \<open>alloc_mappings\<close> is the list of live mappings
  after the request: one more when \<^verbatim>\<open>mmap\<close> was called and succeeded.
\<close>

definition granted :: "'o os_calls \<Rightarrow> 'o lmem \<Rightarrow> 64 word \<Rightarrow> addr" where
  "granted K s len =
     (if LMEM_MMAP_TRESHOLD \<le> len then fst (sys_mmap K (mmap_len len) (os s))
      else fst (new_memblk K (block_units len) s))"

definition alloc_mappings ::
  "'o os_calls \<Rightarrow> 'o lmem \<Rightarrow> 64 word \<Rightarrow> (addr \<times> 64 word) list \<Rightarrow> (addr \<times> 64 word) list" where
  "alloc_mappings K s len M =
     (if LMEM_MMAP_TRESHOLD \<le> len \<and> granted K s len \<noteq> MAP_FAILED
      then with_mapping (granted K s len) (mmap_len len) M else M)"

text \<open>
  An address lies in the region by which the heap grows for a request of \<open>len\<close> bytes
  that no block fits. \<open>os_keeps_apart\<close> is what the allocator relies on from the system to
  keep the mappings and the heap apart: a new mapping is not based where a live mapping
  is, nor inside a block of the heap, and the heap does not grow over the base of a live
  mapping.
\<close>

definition in_new_heap :: "'o os_calls \<Rightarrow> 'o lmem \<Rightarrow> 64 word \<Rightarrow> addr \<Rightarrow> bool" where
  "in_new_heap K s len x =
     (\<not> LMEM_MMAP_TRESHOLD \<le> len \<and> unat (granted K s len) \<le> unat x \<and>
      unat x < unat (granted K s len) + 32 * unat (block_units len))"

definition os_keeps_apart ::
  "'o os_calls \<Rightarrow> 'o lmem \<Rightarrow> addr list \<Rightarrow> (addr \<times> 64 word) list \<Rightarrow> 64 word \<Rightarrow> bool" where
  "os_keeps_apart K s bs M len =
     (if LMEM_MMAP_TRESHOLD \<le> len
      then list_all (\<lambda>e. fst e \<noteq> granted K s len) M \<and>
           (granted K s len = MAP_FAILED \<or> off_heap (hdr s) bs (granted K s len))
      else list_all (\<lambda>e. \<not> in_new_heap K s len (fst e)) M)"

text \<open>
  The invariant of the mappings: the heap is well formed with invariant 2, the header of
  every live mapping holds the sentinel and the length of the mapping, and no live
  mapping starts inside a block of the heap.
\<close>

definition mappings_inv :: "'o lmem \<Rightarrow> addr list \<Rightarrow> (addr \<times> 64 word) list \<Rightarrow> bool" where
  "mappings_inv s bs M =
     (heap_ok s bs \<and> no_adjacent_free (hdr s) bs \<and> mappings_ok (hdr s) M \<and>
      mappings_off_heap (hdr s) bs M)"

section \<open>Concrete heaps\<close>

text \<open>
  A heap of four blocks, used to run the model: a block in use of 4 units at 0x10000, a
  free block of 10 units at 0x10080, a block in use of 2 units at 0x101C0 and a free block
  of 3 units at 0x10200, which ends at the break 0x10260. Beside the heap there is one
  mapping of 18 pages at 0x7f0000000000. The payload byte at an address is the low byte of
  the address.
\<close>

definition zero_blk :: memblk_t where
  "zero_blk = \<lparr>isfree = 0, size_f = 0, prev_f = 0, next_f = 0\<rparr>"

definition heap4 :: "stub_os lmem" where
  "heap4 =
     \<lparr>head = 0x10000, tail = 0x10200, last_break = 0x10260,
      hdr = (\<lambda>_. zero_blk)
        (0x10000 := \<lparr>isfree = 0, size_f = 4, prev_f = 0, next_f = 0x10080\<rparr>,
         0x10080 := \<lparr>isfree = 1, size_f = 10, prev_f = 0x10000, next_f = 0x101C0\<rparr>,
         0x101C0 := \<lparr>isfree = 0, size_f = 2, prev_f = 0x10080, next_f = 0x10200\<rparr>,
         0x10200 := \<lparr>isfree = 1, size_f = 3, prev_f = 0x101C0, next_f = 0\<rparr>,
         0x7f0000000000 := \<lparr>isfree = 0, size_f = 0x12000, prev_f = 0, next_f = - 1\<rparr>),
      bytes = (\<lambda>a. ucast a),
      os = \<lparr>cur_brk = 0x10260, max_brk = 0x20000, next_map = 0x7f0000012000, maps_left = 3\<rparr>\<rparr>"

text \<open>The same heap when the system has no memory left: the break cannot move beyond
  0x10260 and no mapping is granted.\<close>

definition heap4_full :: "stub_os lmem" where
  "heap4_full =
     heap4\<lparr>os := \<lparr>cur_brk = 0x10260, max_brk = 0x10260, next_map = 0x7f0000012000, maps_left = 0\<rparr>\<rparr>"

text \<open>A state with no heap blocks and one mapping of 18 pages at 0x7f0000000000, as
  \<^verbatim>\<open>lmalloc (70000)\<close> leaves it.\<close>

definition mapped1 :: "stub_os lmem" where
  "mapped1 =
     \<lparr>head = 0, tail = 0, last_break = 0,
      hdr = (\<lambda>_. zero_blk)
        (0x7f0000000000 := \<lparr>isfree = 0, size_f = 0x12000, prev_f = 0, next_f = - 1\<rparr>),
      bytes = (\<lambda>a. ucast a),
      os = \<lparr>cur_brk = 0x10000, max_brk = 0x20000, next_map = 0x7f0000012000, maps_left = 3\<rparr>\<rparr>"

section \<open>Heap growth: new_memblk\<close>

lemma new_memblk_last_break:
  "last_break (snd (new_memblk K sz s)) = BRK_FAILED \<Longrightarrow> fst (new_memblk K sz s) = BRK_FAILED"
  by (simp add: new_memblk_def Let_def split: prod.splits if_splits)

lemma new_memblk_success:
  "last_break (snd (new_memblk K sz s)) \<noteq> BRK_FAILED \<Longrightarrow>
   fst (new_memblk K sz s) = blk_sub (last_break (snd (new_memblk K sz s))) sz"
  by (simp add: new_memblk_def Let_def split: prod.splits if_splits)

lemma new_memblk_frame:
  "head (snd (new_memblk K sz s)) = head s \<and> tail (snd (new_memblk K sz s)) = tail s \<and>
   hdr (snd (new_memblk K sz s)) = hdr s \<and> bytes (snd (new_memblk K sz s)) = bytes s"
  by (simp add: new_memblk_def Let_def split: prod.splits if_splits)

section \<open>Properties of the block list\<close>

(*S1*)
subsection \<open>Rounding to pages\<close>

lemma and_neg_4096: "unat ((x :: 64 word) AND - 4096) = (unat x div 4096) * 4096"
proof -
  have m: "(- 4096 :: 64 word) = NOT (mask 12)"
    using minus_exp_eq_not_mask [of 12, where 'a = "64 word"] by simp
  have "x AND NOT (mask 12) = push_bit 12 (drop_bit 12 x)"
    by (rule bit_eqI) (auto simp: bit_simps)
  then have "x AND - 4096 = drop_bit 12 x * 4096"
    by (simp add: m push_bit_eq_mult)
  moreover have "unat (drop_bit 12 x) = unat x div 4096"
    by (simp add: drop_bit_eq_div unat_div_distrib)
  moreover have "unat x div 4096 * 4096 < 2 ^ 64"
    using unsigned_less [of x, where 'a = nat] by simp
  ultimately show ?thesis
    by (simp add: unat_word_ariths)
qed

lemma mmap_len_rounds:
  assumes "unat len + 4127 < 2 ^ 64"
  shows "unat (mmap_len len) = page_round_up (unat len + 32)"
proof -
  have "unat (4127 + len) = unat len + 4127"
    using assms by (simp add: unat_word_ariths)
  then show ?thesis
    by (simp add: mmap_len_def sizeof_memblk_def LMEM_PAGESIZE_def and_neg_4096 page_round_up_def add.commute)
qed

(*S2*)
subsection \<open>Paths, contiguity and frames\<close>

text \<open>A predicate on the list depends only on the fields it reads, at the headers of the
  list: the congruence rules below are the frame rules of every update.\<close>

lemma bpath_append:
  "bpath h pv p (xs @ ys) q = (\<exists>m. bpath h pv p xs m \<and> bpath h (last (pv # xs)) m ys q)"
  by (induction xs arbitrary: pv p) auto

lemma bpath_cong:
  "(\<And>b. b \<in> set bs \<Longrightarrow> next_f (h' b) = next_f (h b) \<and> prev_f (h' b) = prev_f (h b)) \<Longrightarrow>
   bpath h' pv p bs q = bpath h pv p bs q"
  by (induction bs arbitrary: pv p) auto

lemma contiguous_cong:
  "(\<And>b. b \<in> set bs \<Longrightarrow> size_f (h' b) = size_f (h b)) \<Longrightarrow>
   contiguous h' bs = contiguous h bs"
  by (induction h bs rule: contiguous.induct) (auto simp: block_end_def)

lemma no_adjacent_free_cong:
  "(\<And>b. b \<in> set bs \<Longrightarrow> isfree (h' b) = isfree (h b)) \<Longrightarrow>
   no_adjacent_free h' bs = no_adjacent_free h bs"
  by (induction h bs rule: no_adjacent_free.induct) auto

lemma ctg_cong:
  "(\<And>b. b \<in> set bs \<Longrightarrow> size_f (h' b) = size_f (h b)) \<Longrightarrow> ctg h' bs e = ctg h bs e"
  by (induction bs) (auto simp: block_end_def)

lemma ctg_append:
  "ctg h (xs @ ys) e = (ctg h xs (if ys = [] then e else unat (hd ys)) \<and> ctg h ys e)"
  by (induction xs) auto

lemma contiguous_ctg:
  "contiguous h bs = (bs = [] \<or> (ctg h bs (block_end h (last bs)) \<and> block_end h (last bs) < 2 ^ 64))"
  by (induction h bs rule: contiguous.induct) auto

lemma contiguous_split:
  "contiguous h (xs @ b # ys) = (ctg h xs (unat b) \<and> contiguous h (b # ys))"
  by (induction xs) (auto simp: contiguous_ctg ctg_append)

lemma ctg_less:
  "ctg h xs e \<Longrightarrow> x \<in> set xs \<Longrightarrow> unat x < e"
proof (induction xs arbitrary: x)
  case (Cons a xs)
  have "0 < unat (size_f (h a))"
    using Cons.prems(1) by (simp add: unat_gt_0)
  then have a: "unat a < block_end h a"
    by (simp add: block_end_def)
  show ?case
  proof (cases xs)
    case Nil
    with Cons.prems a show ?thesis by simp
  next
    case (Cons c cs)
    have "unat c < e" using Cons.IH [of c] Cons.prems(1) Cons by simp
    moreover have "x \<noteq> a \<Longrightarrow> unat x < e"
      using Cons.IH [of x] Cons.prems by simp
    moreover have "block_end h a = unat c" using Cons.prems(1) Cons by simp
    ultimately show ?thesis using a by (cases "x = a") auto
  qed
qed simp

lemma contiguous_less:
  "contiguous h (b # bs) \<Longrightarrow> c \<in> set bs \<Longrightarrow> block_end h b \<le> unat c"
proof (induction bs arbitrary: b)
  case Nil then show ?case by simp
next
  case (Cons a bs)
  show ?case
  proof (cases "c = a")
    case True with Cons.prems show ?thesis by simp
  next
    case False
    with Cons.prems have "c \<in> set bs" "contiguous h (a # bs)" by auto
    then have "block_end h a \<le> unat c" by (rule Cons.IH[rotated])
    moreover have "block_end h b = unat a" using Cons.prems by simp
    moreover have "unat a \<le> block_end h a" by (simp add: block_end_def)
    ultimately show ?thesis by simp
  qed
qed

lemma contiguous_end_bound:
  "contiguous h bs \<Longrightarrow> b \<in> set bs \<Longrightarrow> block_end h b < 2 ^ 64 \<and> size_f (h b) \<noteq> 0"
proof (induction h bs rule: contiguous.induct)
  case (3 h b c bs)
  have "unat c < 2 ^ 64" using unsigned_less [of c, where 'a = nat] by simp
  with 3 show ?case by auto
qed auto

(*S3*)
subsection \<open>Splitting a block of a well-formed heap\<close>

lemma unat_blk_add:
  "unat b + 32 * unat n < 2 ^ 64 \<Longrightarrow> unat (blk_add b n) = unat b + 32 * unat n"
proof -
  assume a: "unat b + 32 * unat n < 2 ^ 64"
  then have "unat (32 :: 64 word) * unat n < 2 ^ LENGTH(64)" by simp
  then have "unat (32 * n) = 32 * unat n"
    using unat_mult_lem [of "32 :: 64 word" n] by simp
  moreover from this a have "unat b + unat (32 * n) < 2 ^ LENGTH(64)" by simp
  ultimately show ?thesis
    using unat_add_lem [of b "32 * n"] by (simp add: blk_add_def sizeof_memblk_def)
qed

lemma bpath_next:
  "bpath h pv p (b # ys) 0 \<Longrightarrow> next_f (h b) = (if ys = [] then 0 else hd ys)"
  by (cases ys) auto

lemma bpath_nonzero: "bpath h pv p bs q \<Longrightarrow> 0 \<notin> set bs"
  by (induction bs arbitrary: pv p) auto

lemma split_facts:
  assumes ok: "heap_ok s (xs @ b # ys)" and sz: "sz \<noteq> 0" "sz < size_f (hdr s b)"
  shows "unat (blk_add b sz) = unat b + 32 * unat sz"
    and "blk_add b sz \<noteq> b" and "blk_add b sz \<noteq> 0"
    and "blk_add b sz \<notin> set xs" and "blk_add b sz \<notin> set ys"
    and "b \<notin> set xs" and "b \<notin> set ys" and "b \<noteq> 0"
    and "next_f (hdr s b) = (if ys = [] then 0 else hd ys)"
    and "next_f (hdr s b) \<noteq> b" and "next_f (hdr s b) \<noteq> blk_add b sz"
    and "next_f (hdr s b) \<notin> set xs"
    and "unat (size_f (hdr s b) - sz) = unat (size_f (hdr s b)) - unat sz"
    and "unat sz < unat (size_f (hdr s b))" and "0 < unat sz"
    and "block_end (hdr s) b < 2 ^ 64"
proof -
  let ?h = "hdr s"
  let ?up = "blk_add b sz"
  from ok have bp: "bpath ?h 0 (head s) (xs @ b # ys) 0" and ct: "contiguous ?h (xs @ b # ys)"
    by (simp_all add: heap_ok_def blist_def)
  from ct have cx: "ctg ?h xs (unat b)" and cy: "contiguous ?h (b # ys)"
    by (simp_all add: contiguous_split)
  from cy have be: "block_end ?h b < 2 ^ 64"
    using contiguous_end_bound [of ?h "b # ys" b] by simp
  then show "block_end (hdr s) b < 2 ^ 64" .
  from sz show s1: "unat sz < unat (size_f (hdr s b))" by (simp add: word_less_nat_alt)
  from sz show s0: "0 < unat sz" by (simp add: unat_gt_0)
  from s1 be have nw: "unat b + 32 * unat sz < 2 ^ 64" by (simp add: block_end_def)
  then show up: "unat ?up = unat b + 32 * unat sz" by (rule unat_blk_add)
  from up s0 have upb: "unat b < unat ?up" by simp
  from up s1 have upe: "unat ?up < block_end ?h b" by (simp add: block_end_def)
  from upb show "?up \<noteq> b" by auto
  from upb show "?up \<noteq> 0" by auto
  show "?up \<notin> set xs" using ctg_less [OF cx, of ?up] upb by auto
  show "?up \<notin> set ys" using contiguous_less [OF cy, of ?up] upe by auto
  show bx: "b \<notin> set xs" using ctg_less [OF cx, of b] by auto
  have bb: "unat b < block_end ?h b" using s1 by (simp add: block_end_def)
  show by': "b \<notin> set ys" using contiguous_less [OF cy, of b] bb by auto
  from bp have bpx: "bpath ?h 0 (head s) xs b" and bp2: "bpath ?h (last (0 # xs)) b (b # ys) 0"
    by (auto simp: bpath_append)
  then show b0: "b \<noteq> 0" by simp
  from bp2 show nx: "next_f (hdr s b) = (if ys = [] then 0 else hd ys)" by (rule bpath_next)
  have z: "0 \<notin> set xs" using bpx by (rule bpath_nonzero)
  have xy: "y \<notin> set xs" if "y \<in> set ys" for y
    using ctg_less [OF cx, of y] contiguous_less [OF cy, of y] bb that by auto
  show "next_f (hdr s b) \<noteq> b" using nx b0 by' by (cases ys) auto
  show "next_f (hdr s b) \<noteq> ?up" using nx \<open>?up \<noteq> 0\<close> \<open>?up \<notin> set ys\<close> by (cases ys) auto
  show "next_f (hdr s b) \<notin> set xs" using nx z xy by (cases ys) auto
  show "unat (size_f (hdr s b) - sz) = unat (size_f (hdr s b)) - unat sz"
    using sz by (simp add: unat_sub)
qed

lemma contiguous_distinct_hd:
  "contiguous h (y # ys) \<Longrightarrow> y \<notin> set ys"
proof
  assume c: "contiguous h (y # ys)" and "y \<in> set ys"
  then have "block_end h y \<le> unat y" by (rule contiguous_less)
  moreover have "0 < unat (size_f (h y))"
    using contiguous_end_bound [OF c, of y] by (simp add: unat_gt_0)
  ultimately show False by (simp add: block_end_def)
qed

lemma contiguous_tl: "contiguous h (y # ys) \<Longrightarrow> contiguous h ys"
  by (cases ys) auto

lemma split_hdr:
  assumes ok: "heap_ok s (xs @ b # ys)" and sz: "sz \<noteq> 0" "sz < size_f (hdr s b)"
  shows "hdr (lmem_split_block b sz s) =
           (let up = blk_add b sz; nb = next_f (hdr s b);
                h1 = (hdr s)(up := \<lparr>isfree = 1, size_f = size_f (hdr s b) - sz, prev_f = b, next_f = nb\<rparr>,
                             b := (hdr s b)\<lparr>size_f := sz, next_f := up\<rparr>)
            in if nb \<noteq> 0 then h1(nb := (hdr s nb)\<lparr>prev_f := up\<rparr>) else h1)"
    and "tail (lmem_split_block b sz s) = (if ys = [] then blk_add b sz else tail s)"
    and "head (lmem_split_block b sz s) = head s"
    and "bytes (lmem_split_block b sz s) = bytes s"
    and "last_break (lmem_split_block b sz s) = last_break s"
    and "os (lmem_split_block b sz s) = os s"
proof -
  note f = split_facts [OF ok sz]
  have nb0: "(next_f (hdr s b) = 0) = (ys = [])"
    using f(9) ok by (cases ys) (auto simp: heap_ok_def blist_def bpath_append)
  show "hdr (lmem_split_block b sz s) =
           (let up = blk_add b sz; nb = next_f (hdr s b);
                h1 = (hdr s)(up := \<lparr>isfree = 1, size_f = size_f (hdr s b) - sz, prev_f = b, next_f = nb\<rparr>,
                             b := (hdr s b)\<lparr>size_f := sz, next_f := up\<rparr>)
            in if nb \<noteq> 0 then h1(nb := (hdr s nb)\<lparr>prev_f := up\<rparr>) else h1)"
    using f(2) f(10) f(11)
    by (auto simp: lmem_split_block_def Let_def st_isfree_def st_size_def st_prev_def st_next_def
        fun_eq_iff)
  show "tail (lmem_split_block b sz s) = (if ys = [] then blk_add b sz else tail s)"
    using f(2) f(10) f(11) nb0
    by (auto simp: lmem_split_block_def Let_def st_isfree_def st_size_def st_prev_def st_next_def)
  show "head (lmem_split_block b sz s) = head s"
    "bytes (lmem_split_block b sz s) = bytes s"
    "last_break (lmem_split_block b sz s) = last_break s"
    "os (lmem_split_block b sz s) = os s"
    by (simp_all add: lmem_split_block_def Let_def st_isfree_def st_size_def st_prev_def st_next_def)
qed

(*S4*)
lemma split_heap_ok:
  assumes ok: "heap_ok s (xs @ b # ys)" and sz: "sz \<noteq> 0" "sz < size_f (hdr s b)"
  shows "heap_ok (lmem_split_block b sz s) (xs @ b # blk_add b sz # ys)"
proof -
  let ?h = "hdr s"
  let ?up = "blk_add b sz"
  let ?s' = "lmem_split_block b sz s"
  let ?h' = "hdr ?s'"
  note f = split_facts [OF ok sz]
  note hd' = split_hdr [OF ok sz]
  from ok have bp: "bpath ?h 0 (head s) (xs @ b # ys) 0" and ct: "contiguous ?h (xs @ b # ys)"
    and tl: "tail s = last (0 # xs @ b # ys)"
    by (simp_all add: heap_ok_def blist_def)
  from ct have cx: "ctg ?h xs (unat b)" and cy: "contiguous ?h (b # ys)"
    by (simp_all add: contiguous_split)
  from bp have bpx: "bpath ?h 0 (head s) xs b" and pb: "prev_f (?h b) = last (0 # xs)"
    and bpy: "bpath ?h b (next_f (?h b)) ys 0"
    by (auto simp: bpath_append)
  have hx: "?h' x = ?h x" if "x \<in> set xs" for x
  proof -
    have "x \<noteq> ?up" "x \<noteq> b" "x \<noteq> next_f (?h b)"
      using that f(4) f(6) f(12) by blast+
    then show ?thesis by (simp add: hd'(1) Let_def)
  qed
  have hb: "?h' b = (?h b)\<lparr>size_f := sz, next_f := ?up\<rparr>"
    using f(2) f(10) by (simp add: hd'(1) Let_def)
  have hup: "?h' ?up = \<lparr>isfree = 1, size_f = size_f (?h b) - sz, prev_f = b, next_f = next_f (?h b)\<rparr>"
    using f(2) f(11) by (simp add: hd'(1) Let_def)
  have hy: "next_f (?h' y) = next_f (?h y) \<and> size_f (?h' y) = size_f (?h y) \<and>
            prev_f (?h' y) = (if y = next_f (?h b) then ?up else prev_f (?h y))" if "y \<in> set ys" for y
  proof -
    have "y \<noteq> ?up" "y \<noteq> b" "y \<noteq> 0"
      using that f(5) f(7) bpath_nonzero [OF bpy] by blast+
    then show ?thesis by (simp add: hd'(1) Let_def)
  qed
  have 1: "bpath ?h' 0 (head s) xs b"
    using bpx hx by (simp add: bpath_cong [of xs ?h' ?h])
  have 2: "bpath ?h' ?up (next_f (?h b)) ys 0"
  proof (cases ys)
    case Nil with bpy show ?thesis by simp
  next
    case (Cons y ys')
    with cy have "y \<notin> set ys'" using contiguous_distinct_hd [of ?h y ys'] by simp
    moreover from Cons f(9) have ny: "next_f (?h b) = y" by simp
    ultimately have "\<And>c. c \<in> set ys' \<Longrightarrow> next_f (?h' c) = next_f (?h c) \<and> prev_f (?h' c) = prev_f (?h c)"
      using hy Cons by auto
    then have "bpath ?h' y (next_f (?h y)) ys' 0 = bpath ?h y (next_f (?h y)) ys' 0"
      by (rule bpath_cong)
    with bpy Cons ny hy [of y] show ?thesis by simp
  qed
  have bl: "bpath ?h' 0 (head ?s') (xs @ b # ?up # ys) 0"
    using 1 2 hb hup pb f(3) f(8) by (simp add: bpath_append hd'(3))
  have tl': "tail ?s' = last (0 # xs @ b # ?up # ys)"
    using tl by (simp add: hd'(2))
  have 3: "ctg ?h' xs (unat b)"
    using cx hx by (simp add: ctg_cong [of xs ?h' ?h])
  have 4: "contiguous ?h' ys = contiguous ?h ys"
    by (rule contiguous_cong) (simp add: hy)
  have 5: "contiguous ?h' (?up # ys)"
  proof -
    have "block_end ?h' ?up = block_end ?h b"
      using f(1) f(13) f(14) by (simp add: block_end_def hup)
    moreover have "size_f (?h' ?up) \<noteq> 0" using sz by (simp add: hup)
    moreover have "contiguous ?h ys" using cy by (rule contiguous_tl)
    ultimately show ?thesis using cy 4 by (cases ys) auto
  qed
  have 6: "contiguous ?h' (b # ?up # ys)"
    using 5 sz f(1) by (simp add: hb block_end_def)
  have "contiguous ?h' (xs @ b # ?up # ys)"
    using 3 6 by (simp add: contiguous_split)
  with bl tl' show ?thesis by (simp add: heap_ok_def blist_def)
qed

(*S5*)
subsection \<open>The scan of lmalloc\<close>

lemma no_adjacent_free_append:
  "no_adjacent_free h (xs @ ys) =
     (no_adjacent_free h xs \<and> no_adjacent_free h ys \<and>
      (xs = [] \<or> ys = [] \<or> isfree (h (last xs)) = 0 \<or> isfree (h (hd ys)) = 0))"
proof (induction xs)
  case Nil show ?case by simp
next
  case (Cons a xs)
  show ?case
  proof (cases xs)
    case Nil then show ?thesis by (cases ys) auto
  next
    case (Cons c cs) with Cons.IH show ?thesis by auto
  qed
qed

lemma no_adjacent_free_Cons:
  "no_adjacent_free h (b # ys) =
     (no_adjacent_free h ys \<and> (ys = [] \<or> isfree (h b) = 0 \<or> isfree (h (hd ys)) = 0))"
  by (cases ys) auto

lemma lmalloc_scan_skip:
  "bpath (hdr s) pv p xs q \<Longrightarrow> (\<And>x. x \<in> set xs \<Longrightarrow> \<not> fits (hdr s) sz x) \<Longrightarrow>
   lmalloc_scan K sz p s = lmalloc_scan K sz q s"
proof (induction xs arbitrary: pv p)
  case Nil then show ?case by simp
next
  case (Cons a xs)
  from Cons.prems(1) have p: "p = a" "a \<noteq> 0" and r: "bpath (hdr s) a (next_f (hdr s a)) xs q"
    by simp_all
  have nf: "\<not> (isfree (hdr s a) \<noteq> 0 \<and> sz \<le> size_f (hdr s a))"
    using Cons.prems(2) [of a] by (simp add: fits_def)
  have "lmalloc_scan K sz a s = lmalloc_scan K sz (next_f (hdr s a)) s"
    using p(2) nf by (subst lmalloc_scan.simps) auto
  also have "\<dots> = lmalloc_scan K sz q s"
    using r Cons.prems(2) by (intro Cons.IH) auto
  finally show ?case using p(1) by simp
qed

lemma take_block_eq:
  "take_block b sz s =
     (blk_add b 1, st_isfree b 0 (if sz < size_f (hdr s b) then lmem_split_block b sz s else s))"
  by (simp add: take_block_def Let_def)

lemma lmalloc_scan_hit:
  assumes "b \<noteq> 0" "fits (hdr s) sz b"
  shows "lmalloc_scan K sz b s = Some (take_block b sz s)"
  using assms by (subst lmalloc_scan.simps) (simp add: fits_def)

lemma lmalloc_scan_end:
  "lmalloc_scan K sz 0 s = Some (lmalloc_new_block K sz s)"
  by (subst lmalloc_scan.simps) simp

lemma lmalloc_scan_first_fit:
  assumes "bpath (hdr s) 0 p (xs @ b # ys) 0"
    and "\<And>x. x \<in> set xs \<Longrightarrow> \<not> fits (hdr s) sz x" and "fits (hdr s) sz b"
  shows "lmalloc_scan K sz p s = Some (take_block b sz s)"
proof -
  from assms(1) have 1: "bpath (hdr s) 0 p xs b" and 2: "b \<noteq> 0"
    by (auto simp: bpath_append)
  have "lmalloc_scan K sz p s = lmalloc_scan K sz b s"
    using 1 assms(2) by (rule lmalloc_scan_skip)
  then show ?thesis using 2 assms(3) by (simp add: lmalloc_scan_hit)
qed

lemma lmalloc_scan_no_fit:
  assumes "bpath (hdr s) 0 p bs 0" and "\<And>x. x \<in> set bs \<Longrightarrow> \<not> fits (hdr s) sz x"
  shows "lmalloc_scan K sz p s = Some (lmalloc_new_block K sz s)"
  using lmalloc_scan_skip [OF assms] by (simp add: lmalloc_scan_end)

lemma ceiling_div_32: "\<lceil>real n / 32\<rceil> = int ((n + 31) div 32)"
  by linarith

lemma block_units_ceiling:
  assumes "len < LMEM_MMAP_TRESHOLD"
  shows "unat (block_units len) = nat \<lceil>real (unat len) / 32\<rceil> + 1"
    and "block_units len \<noteq> 0" and "unat (block_units len) \<le> 2049"
proof -
  from assms have l: "unat len < 65536"
    by (simp add: LMEM_MMAP_TRESHOLD_def LMEM_PAGESIZE_def word_less_nat_alt)
  then have 1: "unat (len + 32 - 1) = unat len + 31"
    by (simp add: unat_word_ariths)
  then have 2: "unat ((len + 32 - 1) div 32) = (unat len + 31) div 32"
    by (simp add: unat_div_distrib)
  have 3: "(unat len + 31) div 32 \<le> 2048" using l by simp
  then have u: "unat (block_units len) = (unat len + 31) div 32 + 1"
    using 2 by (simp add: block_units_def sizeof_memblk_def unat_word_ariths)
  have "nat \<lceil>real (unat len) / 32\<rceil> = (unat len + 31) div 32"
    by (simp only: ceiling_div_32 nat_int)
  with u show "unat (block_units len) = nat \<lceil>real (unat len) / 32\<rceil> + 1"
    by (simp only:)
  from u have "unat (block_units len) \<noteq> 0" by simp
  then show "block_units len \<noteq> 0" by (simp add: unat_eq_0)
  show "unat (block_units len) \<le> 2049" using u 3 by simp
qed

(*S6*)
subsection \<open>Well-formed heaps\<close>

lemma heap_ok_fields:
  assumes "heap_ok s bs" and "head s' = head s" and "tail s' = tail s"
    and "\<And>b. b \<in> set bs \<Longrightarrow> next_f (hdr s' b) = next_f (hdr s b) \<and>
           prev_f (hdr s' b) = prev_f (hdr s b) \<and> size_f (hdr s' b) = size_f (hdr s b)"
  shows "heap_ok s' bs"
proof -
  have "bpath (hdr s') 0 (head s) bs 0 = bpath (hdr s) 0 (head s) bs 0"
    by (rule bpath_cong) (simp add: assms(4))
  moreover have "contiguous (hdr s') bs = contiguous (hdr s) bs"
    by (rule contiguous_cong) (simp add: assms(4))
  ultimately show ?thesis using assms(1-3) by (simp add: heap_ok_def blist_def)
qed

lemma heap_ok_st_isfree: "heap_ok s bs \<Longrightarrow> heap_ok (st_isfree a v s) bs"
  by (erule heap_ok_fields) (simp_all add: st_isfree_def)

lemma heap_ok_last_end:
  assumes "heap_ok s bs" "x \<in> set bs"
  shows "unat x < block_end (hdr s) (last bs)" and "block_end (hdr s) (last bs) < 2 ^ 64"
proof -
  from assms have "bs \<noteq> []" "contiguous (hdr s) bs" by (auto simp: heap_ok_def)
  then have c: "ctg (hdr s) bs (block_end (hdr s) (last bs))"
    and e: "block_end (hdr s) (last bs) < 2 ^ 64"
    by (simp_all add: contiguous_ctg)
  show "unat x < block_end (hdr s) (last bs)" using c assms(2) by (rule ctg_less)
  show "block_end (hdr s) (last bs) < 2 ^ 64" by (rule e)
qed

lemma heap_ok_head_tail:
  assumes "heap_ok s bs"
  shows "(head s = 0) = (bs = [])" and "(tail s = 0) = (bs = [])" and "0 \<notin> set bs"
    and "bs \<noteq> [] \<Longrightarrow> tail s = last bs \<and> tail s \<in> set bs \<and> next_f (hdr s (tail s)) = 0"
proof -
  from assms have bp: "bpath (hdr s) 0 (head s) bs 0" and tl: "tail s = last (0 # bs)"
    by (simp_all add: heap_ok_def blist_def)
  show z: "0 \<notin> set bs" using bp by (rule bpath_nonzero)
  show "(head s = 0) = (bs = [])" using bp by (cases bs) auto
  show "(tail s = 0) = (bs = [])" using tl z by (cases bs rule: rev_cases) auto
  show "tail s = last bs \<and> tail s \<in> set bs \<and> next_f (hdr s (tail s)) = 0" if "bs \<noteq> []"
  proof -
    from that obtain xs t where bs: "bs = xs @ [t]" by (cases bs rule: rev_cases) auto
    with bp have "next_f (hdr s t) = 0" by (auto simp: bpath_append)
    with bs tl show ?thesis by simp
  qed
qed

(*S7*)
subsection \<open>Appending a new block\<close>

lemma lmalloc_new_block_fail:
  "fst (new_memblk K sz s) = BRK_FAILED \<Longrightarrow>
   lmalloc_new_block K sz s = (0, snd (new_memblk K sz s))"
  by (cases "new_memblk K sz s") (simp add: lmalloc_new_block_def)

lemma lmalloc_new_block_hdr:
  assumes "fst (new_memblk K sz s) = blk" "blk \<noteq> BRK_FAILED" "blk \<noteq> tail s"
  shows "fst (lmalloc_new_block K sz s) = blk_add blk 1"
    and "hdr (snd (lmalloc_new_block K sz s)) =
           (let h1 = (hdr s)(blk := (hdr s blk)\<lparr>isfree := 0, size_f := sz, prev_f := tail s, next_f := 0\<rparr>)
            in if tail s \<noteq> 0 then h1(tail s := (hdr s (tail s))\<lparr>next_f := blk\<rparr>) else h1)"
    and "head (snd (lmalloc_new_block K sz s)) = (if head s = 0 then blk else head s)"
    and "tail (snd (lmalloc_new_block K sz s)) = blk"
    and "bytes (snd (lmalloc_new_block K sz s)) = bytes s"
  using assms new_memblk_frame [of K sz s]
  by (auto simp: lmalloc_new_block_def Let_def st_isfree_def st_size_def st_prev_def st_next_def
      split: prod.splits)

lemma lmalloc_new_block_ok:
  assumes ok: "heap_ok s bs"
    and blk: "fst (new_memblk K sz s) = blk" "blk \<noteq> BRK_FAILED" "blk \<noteq> 0"
    and fresh: "unat blk + 32 * unat sz < 2 ^ 64" "bs = [] \<or> block_end (hdr s) (last bs) = unat blk"
    and sz: "sz \<noteq> 0"
  shows "heap_ok (snd (lmalloc_new_block K sz s)) (bs @ [blk])"
    and "\<And>x. x \<in> set bs \<Longrightarrow> isfree (hdr (snd (lmalloc_new_block K sz s)) x) = isfree (hdr s x)"
    and "isfree (hdr (snd (lmalloc_new_block K sz s)) blk) = 0"
    and "blk \<notin> set bs"
proof -
  let ?s' = "snd (lmalloc_new_block K sz s)"
  let ?h = "hdr s" and ?h' = "hdr ?s'"
  note ht = heap_ok_head_tail [OF ok]
  show nin: "blk \<notin> set bs"
    using heap_ok_last_end(1) [OF ok, of blk] fresh(2) by auto
  have nt: "blk \<noteq> tail s" using ht(2) ht(4) nin blk(3) by (cases "bs = []") auto
  note e = lmalloc_new_block_hdr [OF blk(1) blk(2) nt]
  have hx: "?h' x = (if x = tail s then (?h x)\<lparr>next_f := blk\<rparr> else ?h x)" if "x \<in> set bs" for x
  proof -
    have "x \<noteq> blk" "x \<noteq> 0" using that nin ht(3) by auto
    moreover have "tail s \<noteq> 0" using that ht(2) by auto
    ultimately show ?thesis by (simp add: e(2) Let_def)
  qed
  have hb: "?h' blk = (?h blk)\<lparr>isfree := 0, size_f := sz, prev_f := tail s, next_f := 0\<rparr>"
    using nt by (simp add: e(2) Let_def)
  show "isfree (?h' x) = isfree (?h x)" if "x \<in> set bs" for x
    using hx [OF that] by simp
  show "isfree (?h' blk) = 0" by (simp add: hb)
  from ok have bp: "bpath ?h 0 (head s) bs 0" and ct: "contiguous ?h bs"
    by (simp_all add: heap_ok_def blist_def)
  show "heap_ok ?s' (bs @ [blk])"
  proof (cases bs rule: rev_cases)
    case Nil
    with ht have "head s = 0" "tail s = 0" by simp_all
    with Nil blk(3) sz fresh(1) show ?thesis
      by (simp add: heap_ok_def blist_def e(3) e(4) hb block_end_def)
  next
    case (snoc xs t)
    with ht have t: "tail s = t" "head s \<noteq> 0" by auto
    from bp snoc have bx: "bpath ?h 0 (head s) xs t" and pt: "prev_f (?h t) = last (0 # xs)" "t \<noteq> 0"
      by (auto simp: bpath_append)
    from ct snoc have cx: "ctg ?h xs (unat t)" and c1: "contiguous ?h [t]"
      by (simp_all add: contiguous_split)
    have tx: "t \<notin> set xs" using ctg_less [OF cx, of t] by auto
    have hxs: "?h' x = ?h x" if "x \<in> set xs" for x
      using hx [of x] that tx snoc t by auto
    have 1: "bpath ?h' 0 (head s) xs t"
      using bx hxs by (simp add: bpath_cong [of xs ?h' ?h])
    have 2: "ctg ?h' xs (unat t)"
      using cx hxs by (simp add: ctg_cong [of xs ?h' ?h])
    have htt: "?h' t = (?h t)\<lparr>next_f := blk\<rparr>" using hx [of t] snoc t by simp
    have 3: "bpath ?h' 0 (head ?s') (xs @ [t, blk]) 0"
      using 1 pt blk(3) t by (simp add: bpath_append e(3) htt hb)
    have 4: "contiguous ?h' (xs @ [t, blk])"
      using 2 c1 fresh snoc sz by (simp add: contiguous_split htt hb block_end_def)
    from 3 4 snoc show ?thesis by (simp add: heap_ok_def blist_def e(4))
  qed
qed

(*S8*)
subsection \<open>Taking a free block\<close>

lemma lmalloc_take_whole:
  assumes ok: "heap_ok s (xs @ b # ys)" and naf: "no_adjacent_free (hdr s) (xs @ b # ys)"
  shows "heap_ok (st_isfree b 0 s) (xs @ b # ys)"
    and "no_adjacent_free (hdr (st_isfree b 0 s)) (xs @ b # ys)"
proof -
  let ?h' = "hdr (st_isfree b 0 s)"
  show "heap_ok (st_isfree b 0 s) (xs @ b # ys)" using ok by (rule heap_ok_st_isfree)
  have f: "isfree (?h' x) = (if x = b then 0 else isfree (hdr s x))" for x
    by (simp add: st_isfree_def)
  from ok have ct: "contiguous (hdr s) (xs @ b # ys)" by (simp add: heap_ok_def)
  then have cx: "ctg (hdr s) xs (unat b)" and cy: "contiguous (hdr s) (b # ys)"
    by (simp_all add: contiguous_split)
  have bx: "b \<notin> set xs" using ctg_less [OF cx, of b] by auto
  have "b \<notin> set ys" using cy by (rule contiguous_distinct_hd)
  have 1: "no_adjacent_free ?h' xs = no_adjacent_free (hdr s) xs"
    by (rule no_adjacent_free_cong) (use bx in \<open>auto simp: f\<close>)
  have 2: "no_adjacent_free ?h' ys = no_adjacent_free (hdr s) ys"
    by (rule no_adjacent_free_cong) (use \<open>b \<notin> set ys\<close> in \<open>auto simp: f\<close>)
  from naf have "no_adjacent_free (hdr s) xs" "no_adjacent_free (hdr s) ys"
    by (simp_all add: no_adjacent_free_append no_adjacent_free_Cons)
  with 1 2 show "no_adjacent_free ?h' (xs @ b # ys)"
    by (simp add: no_adjacent_free_append no_adjacent_free_Cons f)
qed

lemma lmalloc_take_split:
  assumes ok: "heap_ok s (xs @ b # ys)" and naf: "no_adjacent_free (hdr s) (xs @ b # ys)"
    and sz: "sz \<noteq> 0" "sz < size_f (hdr s b)" and fr: "isfree (hdr s b) \<noteq> 0"
  shows "heap_ok (st_isfree b 0 (lmem_split_block b sz s)) (xs @ b # blk_add b sz # ys)"
    and "no_adjacent_free (hdr (st_isfree b 0 (lmem_split_block b sz s))) (xs @ b # blk_add b sz # ys)"
proof -
  let ?up = "blk_add b sz"
  let ?s1 = "lmem_split_block b sz s"
  let ?h' = "hdr (st_isfree b 0 ?s1)"
  note f = split_facts [OF ok sz]
  note hd' = split_hdr [OF ok sz]
  have ok1: "heap_ok ?s1 (xs @ b # ?up # ys)" using ok sz by (rule split_heap_ok)
  then show "heap_ok (st_isfree b 0 ?s1) (xs @ b # ?up # ys)" by (rule heap_ok_st_isfree)
  have z: "0 \<notin> set (xs @ b # ?up # ys)" using heap_ok_head_tail(3) [OF ok1] .
  have fb: "isfree (?h' b) = 0" by (simp add: st_isfree_def)
  have fx: "isfree (?h' x) = isfree (hdr s x)" if "x \<noteq> b" "x \<noteq> ?up" for x
    using that by (simp add: st_isfree_def hd'(1) Let_def)
  have fx': "isfree (?h' x) = isfree (hdr s x)" if "x \<in> set xs \<or> x \<in> set ys" for x
  proof -
    from that f(4-7) have "x \<noteq> b" "x \<noteq> ?up" by blast+
    then show ?thesis by (rule fx)
  qed
  have 1: "no_adjacent_free ?h' xs = no_adjacent_free (hdr s) xs"
    by (rule no_adjacent_free_cong) (simp add: fx')
  have 2: "no_adjacent_free ?h' ys = no_adjacent_free (hdr s) ys"
    by (rule no_adjacent_free_cong) (simp add: fx')
  have 3: "isfree (?h' (hd ys)) = 0" if "ys \<noteq> []"
  proof -
    from that have "hd ys \<in> set ys" by simp
    moreover from naf fr that have "isfree (hdr s (hd ys)) = 0"
      by (simp add: no_adjacent_free_append no_adjacent_free_Cons)
    ultimately show ?thesis by (simp add: fx')
  qed
  from naf have "no_adjacent_free (hdr s) xs" "no_adjacent_free (hdr s) ys"
    by (simp_all add: no_adjacent_free_append no_adjacent_free_Cons)
  with 1 2 3 show "no_adjacent_free ?h' (xs @ b # ?up # ys)"
    by (auto simp: no_adjacent_free_append no_adjacent_free_Cons fb)
qed

(*S9*)
subsection \<open>Merging a block into its free left neighbour\<close>

lemma merge_facts:
  assumes ok: "heap_ok s (xs @ p # b # ys)"
  shows "prev_f (hdr s b) = p" and "p \<noteq> 0" and "b \<noteq> 0" and "p \<noteq> b"
    and "next_f (hdr s b) = (if ys = [] then 0 else hd ys)"
    and "next_f (hdr s p) = b"
    and "p \<notin> set xs" and "b \<notin> set xs" and "p \<notin> set ys" and "b \<notin> set ys"
    and "next_f (hdr s b) \<noteq> b" and "next_f (hdr s b) \<noteq> p" and "next_f (hdr s b) \<notin> set xs"
    and "unat (size_f (hdr s p) + size_f (hdr s b)) = unat (size_f (hdr s p)) + unat (size_f (hdr s b))"
    and "block_end (hdr s) p = unat b" and "size_f (hdr s p) \<noteq> 0"
    and "distinct ys" and "0 \<notin> set ys"
proof -
  let ?h = "hdr s"
  from ok have bp: "bpath ?h 0 (head s) (xs @ p # b # ys) 0" and ct: "contiguous ?h (xs @ p # b # ys)"
    by (simp_all add: heap_ok_def blist_def)
  from bp have bpx: "bpath ?h 0 (head s) xs p" and bp2: "bpath ?h p b (b # ys) 0"
    and bpy: "bpath ?h b (next_f (?h b)) ys 0"
    and "p \<noteq> 0" and "next_f (?h p) = b"
    by (auto simp: bpath_append)
  then show "p \<noteq> 0" "next_f (?h p) = b" by simp_all
  from bp2 show pb: "prev_f (?h b) = p" and b0: "b \<noteq> 0" by simp_all
  from bp2 show nx: "next_f (?h b) = (if ys = [] then 0 else hd ys)" by (rule bpath_next)
  from ct have cx: "ctg ?h xs (unat p)" and cp: "contiguous ?h (p # b # ys)"
    by (simp_all add: contiguous_split)
  from cp have cb: "contiguous ?h (b # ys)" and pe: "block_end ?h p = unat b" and ps: "size_f (?h p) \<noteq> 0"
    by simp_all
  show "block_end ?h p = unat b" "size_f (?h p) \<noteq> 0" by (rule pe, rule ps)
  from ps have "0 < unat (size_f (?h p))" by (simp add: unat_gt_0)
  with pe have plb: "unat p < unat b" by (simp add: block_end_def)
  then show "p \<noteq> b" by auto
  show px: "p \<notin> set xs" using ctg_less [OF cx, of p] by auto
  show bx: "b \<notin> set xs" using ctg_less [OF cx, of b] plb by auto
  show bys: "b \<notin> set ys" using cb by (rule contiguous_distinct_hd)
  have be: "block_end ?h b < 2 ^ 64" and bs: "size_f (?h b) \<noteq> 0"
    using contiguous_end_bound [OF cb, of b] by simp_all
  from bs have bb: "unat b < block_end ?h b" by (simp add: block_end_def unat_gt_0)
  have yb: "block_end ?h b \<le> unat y" if "y \<in> set ys" for y
    using cb that by (rule contiguous_less)
  show pys: "p \<notin> set ys" using yb [of p] plb bb by auto
  have z: "0 \<notin> set xs" using bpx by (rule bpath_nonzero)
  show zy: "0 \<notin> set ys" using bpy by (rule bpath_nonzero)
  have xy: "y \<notin> set xs" if "y \<in> set ys" for y
    using ctg_less [OF cx, of y] yb [OF that] plb bb by auto
  show "next_f (?h b) \<noteq> b" using nx b0 bys by (cases ys) auto
  show "next_f (?h b) \<noteq> p" using nx \<open>p \<noteq> 0\<close> pys by (cases ys) auto
  show "next_f (?h b) \<notin> set xs" using nx z xy by (cases ys) auto
  have "unat (size_f (?h p)) + unat (size_f (?h b)) < 2 ^ 64"
    using pe be by (simp add: block_end_def)
  then show "unat (size_f (?h p) + size_f (?h b)) = unat (size_f (?h p)) + unat (size_f (?h b))"
    using unat_add_lem [of "size_f (?h p)" "size_f (?h b)"] by simp
  show "distinct ys" using cb
  proof (induction ys arbitrary: b)
    case (Cons y ys)
    then have "contiguous ?h (y # ys)" by simp
    then show ?case using Cons.IH [of y] contiguous_distinct_hd [of ?h y ys] by simp
  qed simp
qed

lemma merge_hdr:
  assumes ok: "heap_ok s (xs @ p # b # ys)" and fr: "isfree (hdr s p) \<noteq> 0"
  shows "hdr (lfree_left_merge b s) =
           (let nb = next_f (hdr s b);
                h1 = (hdr s)(p := (hdr s p)\<lparr>size_f := size_f (hdr s p) + size_f (hdr s b), next_f := nb\<rparr>)
            in if nb \<noteq> 0 then h1(nb := (hdr s nb)\<lparr>prev_f := p\<rparr>) else h1)"
    and "tail (lfree_left_merge b s) = (if ys = [] then p else tail s)"
    and "head (lfree_left_merge b s) = head s"
    and "bytes (lfree_left_merge b s) = bytes s"
    and "last_break (lfree_left_merge b s) = last_break s"
    and "os (lfree_left_merge b s) = os s"
proof -
  note f = merge_facts [OF ok]
  have nb0: "(next_f (hdr s b) = 0) = (ys = [])"
    using f(5) f(18) by (cases ys) auto
  have c: "prev_f (hdr s b) \<noteq> 0 \<and> isfree (hdr s (prev_f (hdr s b))) \<noteq> 0"
    using f(1) f(2) fr by simp
  show "hdr (lfree_left_merge b s) =
           (let nb = next_f (hdr s b);
                h1 = (hdr s)(p := (hdr s p)\<lparr>size_f := size_f (hdr s p) + size_f (hdr s b), next_f := nb\<rparr>)
            in if nb \<noteq> 0 then h1(nb := (hdr s nb)\<lparr>prev_f := p\<rparr>) else h1)"
    using c f(1) f(4) f(11) f(12)
    by (auto simp: lfree_left_merge_def Let_def st_size_def st_prev_def st_next_def fun_eq_iff)
  show "tail (lfree_left_merge b s) = (if ys = [] then p else tail s)"
    using c f(1) f(4) f(11) f(12) nb0
    by (auto simp: lfree_left_merge_def Let_def st_size_def st_prev_def st_next_def)
  show "head (lfree_left_merge b s) = head s"
    "bytes (lfree_left_merge b s) = bytes s"
    "last_break (lfree_left_merge b s) = last_break s"
    "os (lfree_left_merge b s) = os s"
    by (simp_all add: lfree_left_merge_def Let_def st_isfree_def st_size_def st_prev_def st_next_def)
qed

(*S10*)
lemma merge_heap_ok:
  assumes ok: "heap_ok s (xs @ p # b # ys)" and fr: "isfree (hdr s p) \<noteq> 0"
  shows "heap_ok (lfree_left_merge b s) (xs @ p # ys)"
    and "\<And>x. isfree (hdr (lfree_left_merge b s) x) = isfree (hdr s x)"
    and "hdr (lfree_left_merge b s) b = hdr s b"
    and "size_f (hdr (lfree_left_merge b s) p) = size_f (hdr s p) + size_f (hdr s b)"
    and "\<And>x. x \<noteq> p \<Longrightarrow> size_f (hdr (lfree_left_merge b s) x) = size_f (hdr s x)"
proof -
  let ?h = "hdr s"
  let ?s' = "lfree_left_merge b s"
  let ?h' = "hdr ?s'"
  note f = merge_facts [OF ok]
  note hd' = merge_hdr [OF ok fr]
  show fi: "isfree (?h' x) = isfree (?h x)" for x
    by (simp add: hd'(1) Let_def)
  show "?h' b = ?h b" using f(4) f(11) by (simp add: hd'(1) Let_def)
  show hp: "size_f (?h' p) = size_f (?h p) + size_f (?h b)"
    using f(12) by (simp add: hd'(1) Let_def)
  show "size_f (?h' x) = size_f (?h x)" if "x \<noteq> p" for x
    using that by (simp add: hd'(1) Let_def)
  from ok have bp: "bpath ?h 0 (head s) (xs @ p # b # ys) 0" and ct: "contiguous ?h (xs @ p # b # ys)"
    and tl: "tail s = last (0 # xs @ p # b # ys)"
    by (simp_all add: heap_ok_def blist_def)
  from ct have cx: "ctg ?h xs (unat p)" and cb: "contiguous ?h (b # ys)"
    by (simp_all add: contiguous_split)
  from bp have bpx: "bpath ?h 0 (head s) xs p" and pp: "prev_f (?h p) = last (0 # xs)"
    and bpy: "bpath ?h b (next_f (?h b)) ys 0"
    by (auto simp: bpath_append)
  have hx: "?h' x = ?h x" if "x \<in> set xs" for x
  proof -
    have "x \<noteq> p" "x \<noteq> next_f (?h b)" using that f(7) f(13) by blast+
    then show ?thesis by (simp add: hd'(1) Let_def)
  qed
  have hpp: "?h' p = (?h p)\<lparr>size_f := size_f (?h p) + size_f (?h b), next_f := next_f (?h b)\<rparr>"
    using f(12) by (simp add: hd'(1) Let_def)
  have hy: "next_f (?h' y) = next_f (?h y) \<and> size_f (?h' y) = size_f (?h y) \<and>
            prev_f (?h' y) = (if y = next_f (?h b) then p else prev_f (?h y))" if "y \<in> set ys" for y
  proof -
    have "y \<noteq> p" "y \<noteq> 0" using that f(9) f(18) by blast+
    then show ?thesis by (simp add: hd'(1) Let_def)
  qed
  have 1: "bpath ?h' 0 (head s) xs p"
    using bpx hx by (simp add: bpath_cong [of xs ?h' ?h])
  have 2: "bpath ?h' p (next_f (?h b)) ys 0"
  proof (cases ys)
    case Nil with bpy show ?thesis by simp
  next
    case (Cons y ys')
    with f(17) have "y \<notin> set ys'" by simp
    moreover from Cons f(5) have ny: "next_f (?h b) = y" by simp
    ultimately have "\<And>c. c \<in> set ys' \<Longrightarrow> next_f (?h' c) = next_f (?h c) \<and> prev_f (?h' c) = prev_f (?h c)"
      using hy Cons by auto
    then have "bpath ?h' y (next_f (?h y)) ys' 0 = bpath ?h y (next_f (?h y)) ys' 0"
      by (rule bpath_cong)
    with bpy Cons ny hy [of y] show ?thesis by simp
  qed
  have bl: "bpath ?h' 0 (head ?s') (xs @ p # ys) 0"
    using 1 2 hpp pp f(2) by (simp add: bpath_append hd'(3))
  have tl': "tail ?s' = last (0 # xs @ p # ys)"
    using tl by (simp add: hd'(2))
  have 3: "ctg ?h' xs (unat p)"
    using cx hx by (simp add: ctg_cong [of xs ?h' ?h])
  have 4: "contiguous ?h' ys = contiguous ?h ys"
    by (rule contiguous_cong) (simp add: hy)
  have 5: "contiguous ?h' (p # ys)"
  proof -
    have "block_end ?h' p = block_end ?h b"
      using f(14) f(15) by (simp add: block_end_def hpp)
    moreover have "unat (size_f (?h' p)) \<noteq> 0" using f(14) f(16) by (simp add: hpp unat_eq_0)
    then have "size_f (?h' p) \<noteq> 0" by (simp add: unat_eq_0)
    moreover have "contiguous ?h ys" using cb by (rule contiguous_tl)
    ultimately show ?thesis using cb 4 by (cases ys) auto
  qed
  have "contiguous ?h' (xs @ p # ys)"
    using 3 5 by (simp add: contiguous_split)
  with bl tl' show "heap_ok ?s' (xs @ p # ys)" by (simp add: heap_ok_def blist_def)
qed

lemma lfree_left_merge_mark:
  "prev_f (hdr s b) = 0 \<or> isfree (hdr s (prev_f (hdr s b))) = 0 \<Longrightarrow>
   lfree_left_merge b s = st_isfree b 1 s"
  by (auto simp: lfree_left_merge_def)

(*S11*)
subsection \<open>Release: the four cases of lfree\<close>

lemma heap_block_facts:
  assumes ok: "heap_ok s bs" and b: "b \<in> set bs"
  shows "blk_add b 1 \<noteq> 0" and "blk_sub (blk_add b 1) 1 = b"
    and "next_f (hdr s b) \<noteq> LMEM_NEXT_MMAP" and "b \<noteq> LMEM_NEXT_MMAP"
proof -
  from ok have ct: "contiguous (hdr s) bs" and bp: "bpath (hdr s) 0 (head s) bs 0"
    by (simp_all add: heap_ok_def blist_def)
  have e: "block_end (hdr s) x < 2 ^ 64 \<and> size_f (hdr s x) \<noteq> 0" if "x \<in> set bs" for x
    using ct that by (rule contiguous_end_bound)
  have n1: "x \<noteq> - 1" if "x \<in> set bs" for x
  proof
    assume "x = - 1"
    then have "unat x = 2 ^ 64 - 1" by (simp add: unsigned_minus_1_eq_mask mask_eq_exp_minus_1)
    moreover have "0 < unat (size_f (hdr s x))" using e [OF that] by (simp add: unat_gt_0)
    ultimately show False using e [OF that] by (simp add: block_end_def)
  qed
  from e [OF b] have "0 < unat (size_f (hdr s b))" by (simp add: unat_gt_0)
  with e [OF b] have "unat b + 32 * unat (1 :: 64 word) < 2 ^ 64" by (simp add: block_end_def)
  then have "unat (blk_add b 1) = unat b + 32 * unat (1 :: 64 word)" by (rule unat_blk_add)
  then have "unat (blk_add b 1) \<noteq> 0" by simp
  then show "blk_add b 1 \<noteq> 0" by (simp add: unat_eq_0)
  show "blk_sub (blk_add b 1) 1 = b" by (simp add: blk_sub_def blk_add_def)
  show "b \<noteq> LMEM_NEXT_MMAP" using n1 [OF b] by (simp add: LMEM_NEXT_MMAP_def)
  from b obtain xs ys where bs: "bs = xs @ b # ys" by (auto simp: in_set_conv_decomp)
  with bp have "bpath (hdr s) (last (0 # xs)) b (b # ys) 0" by (auto simp: bpath_append)
  then have "next_f (hdr s b) = (if ys = [] then 0 else hd ys)" by (rule bpath_next)
  then have "next_f (hdr s b) = 0 \<or> next_f (hdr s b) \<in> set bs" using bs by (cases ys) auto
  then show "next_f (hdr s b) \<noteq> LMEM_NEXT_MMAP" using n1 by (auto simp: LMEM_NEXT_MMAP_def)
qed

lemma lfree_heap_unfold:
  assumes "addr \<noteq> 0" "next_f (hdr s (blk_sub addr 1)) \<noteq> LMEM_NEXT_MMAP"
  shows "lfree K addr s =
           (let s1 = lfree_left_merge (blk_sub addr 1) s
            in if next_f (hdr s1 (blk_sub addr 1)) \<noteq> 0 \<and>
                  isfree (hdr s1 (next_f (hdr s1 (blk_sub addr 1)))) \<noteq> 0
               then lfree_left_merge (next_f (hdr s1 (blk_sub addr 1))) s1 else s1)"
  using assms by (simp add: lfree_def Let_def)

lemma lfree_mark_step:
  assumes ok: "heap_ok s (xs @ b # ys)" and nl: "xs = [] \<or> isfree (hdr s (last xs)) = 0"
  shows "lfree_left_merge b s = st_isfree b 1 s"
proof -
  from ok have "bpath (hdr s) 0 (head s) (xs @ b # ys) 0" by (simp add: heap_ok_def blist_def)
  then have "prev_f (hdr s b) = last (0 # xs)" by (auto simp: bpath_append)
  with nl have "prev_f (hdr s b) = 0 \<or> isfree (hdr s (prev_f (hdr s b))) = 0"
    by (cases xs rule: rev_cases) auto
  then show ?thesis by (rule lfree_left_merge_mark)
qed

(*S12*)
lemma naf_cong_list:
  "no_adjacent_free h bs \<Longrightarrow> (\<And>x. x \<in> set bs \<Longrightarrow> isfree (h' x) = isfree (h x)) \<Longrightarrow>
   no_adjacent_free h' bs"
  using no_adjacent_free_cong [of bs h' h] by simp

lemma contiguous_distinct: "contiguous h bs \<Longrightarrow> distinct bs"
proof (induction bs)
  case (Cons b bs)
  then show ?case using contiguous_distinct_hd [of h b bs] contiguous_tl [of h b bs] by simp
qed simp

lemma heap_ok_distinct: "heap_ok s bs \<Longrightarrow> distinct bs"
  by (auto simp: heap_ok_def intro: contiguous_distinct)

lemma heap_ok_links:
  assumes "heap_ok s (xs @ b # ys)"
  shows "prev_f (hdr s b) = last (0 # xs)" and "next_f (hdr s b) = (if ys = [] then 0 else hd ys)"
    and "b \<noteq> 0" and "b \<notin> set xs" and "b \<notin> set ys"
proof -
  from assms have bp: "bpath (hdr s) 0 (head s) (xs @ b # ys) 0"
    by (simp add: heap_ok_def blist_def)
  then have 1: "bpath (hdr s) (last (0 # xs)) b (b # ys) 0" by (auto simp: bpath_append)
  then show "prev_f (hdr s b) = last (0 # xs)" "b \<noteq> 0" by simp_all
  from 1 show "next_f (hdr s b) = (if ys = [] then 0 else hd ys)" by (rule bpath_next)
  from heap_ok_distinct [OF assms] show "b \<notin> set xs" "b \<notin> set ys" by simp_all
qed

lemma lfree_block:
  assumes "blk_add b 1 \<noteq> 0" "next_f (hdr s b) \<noteq> LMEM_NEXT_MMAP"
  shows "lfree K (blk_add b 1) s =
           (if next_f (hdr (lfree_left_merge b s) b) \<noteq> 0 \<and>
               isfree (hdr (lfree_left_merge b s) (next_f (hdr (lfree_left_merge b s) b))) \<noteq> 0
            then lfree_left_merge (next_f (hdr (lfree_left_merge b s) b)) (lfree_left_merge b s)
            else lfree_left_merge b s)"
proof -
  have "blk_sub (blk_add b 1) 1 = b" by (simp add: blk_sub_def blk_add_def)
  then show ?thesis using assms by (simp add: lfree_def Let_def cong: if_cong)
qed

lemma lfree_case_none:
  assumes ok: "heap_ok s (xs @ b # ys)" and naf: "no_adjacent_free (hdr s) (xs @ b # ys)"
    and nl: "xs = [] \<or> isfree (hdr s (last xs)) = 0"
    and nr: "ys = [] \<or> isfree (hdr s (hd ys)) = 0"
  shows "lfree K (blk_add b 1) s = st_isfree b 1 s"
    and "heap_ok (lfree K (blk_add b 1) s) (xs @ b # ys)"
    and "no_adjacent_free (hdr (lfree K (blk_add b 1) s)) (xs @ b # ys)"
proof -
  have bin: "b \<in> set (xs @ b # ys)" by simp
  note hb = heap_block_facts [OF ok bin]
  note l = heap_ok_links [OF ok]
  have m: "lfree_left_merge b s = st_isfree b 1 s" using ok nl by (rule lfree_mark_step)
  have "hd ys \<noteq> b" if "ys \<noteq> []" using that l(5) by (cases ys) auto
  then have c: "next_f (hdr s b) = 0 \<or> isfree (hdr (st_isfree b 1 s) (next_f (hdr s b))) = 0"
    using nr l(2) by (auto simp: st_isfree_def)
  have n: "next_f (hdr (st_isfree b 1 s) b) = next_f (hdr s b)" by (simp add: st_isfree_def)
  show e: "lfree K (blk_add b 1) s = st_isfree b 1 s"
    using c lfree_block [OF hb(1) hb(3), of K] by (auto simp: m n)
  show "heap_ok (lfree K (blk_add b 1) s) (xs @ b # ys)"
    unfolding e using ok by (rule heap_ok_st_isfree)
  from naf have nx: "no_adjacent_free (hdr s) xs" and ny: "no_adjacent_free (hdr s) ys"
    by (simp_all add: no_adjacent_free_append no_adjacent_free_Cons)
  have fx: "isfree (hdr (st_isfree b 1 s) x) = isfree (hdr s x)" if "x \<in> set xs \<or> x \<in> set ys" for x
  proof -
    from that l(4) l(5) have "x \<noteq> b" by blast
    then show ?thesis by (simp add: st_isfree_def)
  qed
  have 1: "no_adjacent_free (hdr (st_isfree b 1 s)) xs"
    using nx by (rule naf_cong_list) (simp add: fx)
  have 2: "no_adjacent_free (hdr (st_isfree b 1 s)) ys"
    using ny by (rule naf_cong_list) (simp add: fx)
  have 3: "xs = [] \<or> isfree (hdr (st_isfree b 1 s) (last xs)) = 0"
    using nl fx [of "last xs"] by (cases "xs = []") simp_all
  have 4: "ys = [] \<or> isfree (hdr (st_isfree b 1 s) (hd ys)) = 0"
    using nr fx [of "hd ys"] by (cases "ys = []") simp_all
  show "no_adjacent_free (hdr (lfree K (blk_add b 1) s)) (xs @ b # ys)"
    unfolding e using 1 2 3 4 by (auto simp: no_adjacent_free_append no_adjacent_free_Cons)
qed

(*S13*)
lemma naf_isfree_eq:
  "(\<And>x. isfree (h' x) = isfree (h x)) \<Longrightarrow> no_adjacent_free h' bs = no_adjacent_free h bs"
  by (rule no_adjacent_free_cong) simp

lemma lfree_case_left:
  assumes ok: "heap_ok s (xs @ p # b # ys)" and naf: "no_adjacent_free (hdr s) (xs @ p # b # ys)"
    and fl: "isfree (hdr s p) \<noteq> 0"
    and nr: "ys = [] \<or> isfree (hdr s (hd ys)) = 0"
  shows "lfree K (blk_add b 1) s = lfree_left_merge b s"
    and "heap_ok (lfree K (blk_add b 1) s) (xs @ p # ys)"
    and "no_adjacent_free (hdr (lfree K (blk_add b 1) s)) (xs @ p # ys)"
proof -
  let ?s1 = "lfree_left_merge b s"
  have bin: "b \<in> set (xs @ p # b # ys)" by simp
  note hb = heap_block_facts [OF ok bin]
  note f = merge_facts [OF ok]
  note r = merge_heap_ok [OF ok fl]
  have n: "next_f (hdr ?s1 b) = next_f (hdr s b)" by (simp add: r(3))
  have c: "next_f (hdr s b) = 0 \<or> isfree (hdr ?s1 (next_f (hdr s b))) = 0"
    using nr f(5) by (auto simp: r(2))
  show e: "lfree K (blk_add b 1) s = ?s1"
    using c lfree_block [OF hb(1) hb(3), of K] by (auto simp: n)
  show "heap_ok (lfree K (blk_add b 1) s) (xs @ p # ys)"
    unfolding e by (rule r(1))
  have "no_adjacent_free (hdr s) (xs @ p # ys)"
    using naf nr by (auto simp: no_adjacent_free_append no_adjacent_free_Cons)
  then show "no_adjacent_free (hdr (lfree K (blk_add b 1) s)) (xs @ p # ys)"
    unfolding e by (simp add: naf_isfree_eq [of "hdr ?s1" "hdr s"] r(2))
qed

lemma lfree_case_right:
  assumes ok: "heap_ok s (xs @ b # y # ys)" and naf: "no_adjacent_free (hdr s) (xs @ b # y # ys)"
    and nl: "xs = [] \<or> isfree (hdr s (last xs)) = 0"
    and fr: "isfree (hdr s y) \<noteq> 0"
  shows "lfree K (blk_add b 1) s = lfree_left_merge y (st_isfree b 1 s)"
    and "heap_ok (lfree K (blk_add b 1) s) (xs @ b # ys)"
    and "no_adjacent_free (hdr (lfree K (blk_add b 1) s)) (xs @ b # ys)"
    and "isfree (hdr (lfree K (blk_add b 1) s) b) \<noteq> 0"
    and "size_f (hdr (lfree K (blk_add b 1) s) b) = size_f (hdr s b) + size_f (hdr s y)"
proof -
  let ?s1 = "st_isfree b 1 s"
  let ?s2 = "lfree_left_merge y ?s1"
  have bin: "b \<in> set (xs @ b # y # ys)" by simp
  note hb = heap_block_facts [OF ok bin]
  note l = heap_ok_links [OF ok]
  have m: "lfree_left_merge b s = ?s1" using ok nl by (rule lfree_mark_step)
  have yb: "y \<noteq> b" "y \<noteq> 0" using l(5) heap_ok_head_tail(3) [OF ok] by auto
  have ok1: "heap_ok ?s1 (xs @ b # y # ys)" using ok by (rule heap_ok_st_isfree)
  have f1: "isfree (hdr ?s1 b) \<noteq> 0" by (simp add: st_isfree_def)
  note r = merge_heap_ok [OF ok1 f1]
  have n: "next_f (hdr ?s1 b) = y" using l(2) by (simp add: st_isfree_def)
  have c: "isfree (hdr ?s1 y) \<noteq> 0" using fr yb by (simp add: st_isfree_def)
  show e: "lfree K (blk_add b 1) s = ?s2"
    using c yb lfree_block [OF hb(1) hb(3), of K] by (simp add: m n)
  show "heap_ok (lfree K (blk_add b 1) s) (xs @ b # ys)"
    unfolding e by (rule r(1))
  have i1: "isfree (hdr ?s1 x) = (if x = b then 1 else isfree (hdr s x))" for x
    by (simp add: st_isfree_def)
  have i: "isfree (hdr ?s2 x) = (if x = b then 1 else isfree (hdr s x))" for x
    using r(2) [of x] i1 [of x] by (simp only:)
  show "isfree (hdr (lfree K (blk_add b 1) s) b) \<noteq> 0"
    unfolding e using i [of b] by simp
  have "size_f (hdr ?s1 b) = size_f (hdr s b)" "size_f (hdr ?s1 y) = size_f (hdr s y)"
    by (simp_all add: st_isfree_def)
  then show "size_f (hdr (lfree K (blk_add b 1) s) b) = size_f (hdr s b) + size_f (hdr s y)"
    unfolding e using r(4) by (simp only:)
  from naf fr have ny: "ys = [] \<or> isfree (hdr s (hd ys)) = 0"
    and nxs: "no_adjacent_free (hdr s) xs" and nys: "no_adjacent_free (hdr s) ys"
    by (auto simp: no_adjacent_free_append no_adjacent_free_Cons)
  have bn: "b \<notin> set xs" "b \<notin> set ys" using l(4) l(5) by auto
  have fx: "isfree (hdr ?s2 x) = isfree (hdr s x)" if "x \<in> set xs \<or> x \<in> set ys" for x
  proof -
    from that bn have "x \<noteq> b" by blast
    then show ?thesis by (simp add: i)
  qed
  have 1: "no_adjacent_free (hdr ?s2) xs" using nxs by (rule naf_cong_list) (simp add: fx)
  have 2: "no_adjacent_free (hdr ?s2) ys" using nys by (rule naf_cong_list) (simp add: fx)
  have 3: "xs = [] \<or> isfree (hdr ?s2 (last xs)) = 0"
    using nl fx [of "last xs"] by (cases "xs = []") simp_all
  have 4: "ys = [] \<or> isfree (hdr ?s2 (hd ys)) = 0"
    using ny fx [of "hd ys"] by (cases "ys = []") simp_all
  show "no_adjacent_free (hdr (lfree K (blk_add b 1) s)) (xs @ b # ys)"
    unfolding e using 1 2 3 4 by (auto simp: no_adjacent_free_append no_adjacent_free_Cons)
qed

lemma lfree_case_both:
  assumes ok: "heap_ok s (xs @ p # b # y # ys)"
    and naf: "no_adjacent_free (hdr s) (xs @ p # b # y # ys)"
    and fl: "isfree (hdr s p) \<noteq> 0" and fr: "isfree (hdr s y) \<noteq> 0"
  shows "lfree K (blk_add b 1) s = lfree_left_merge y (lfree_left_merge b s)"
    and "heap_ok (lfree K (blk_add b 1) s) (xs @ p # ys)"
    and "no_adjacent_free (hdr (lfree K (blk_add b 1) s)) (xs @ p # ys)"
    and "isfree (hdr (lfree K (blk_add b 1) s) p) \<noteq> 0"
    and "size_f (hdr (lfree K (blk_add b 1) s) p) =
           size_f (hdr s p) + size_f (hdr s b) + size_f (hdr s y)"
proof -
  let ?s1 = "lfree_left_merge b s"
  let ?s2 = "lfree_left_merge y ?s1"
  have bin: "b \<in> set (xs @ p # b # y # ys)" by simp
  note hb = heap_block_facts [OF ok bin]
  note f = merge_facts [OF ok]
  note r = merge_heap_ok [OF ok fl]
  have yb: "y \<noteq> 0" "y \<noteq> p" using f(18) f(9) by auto
  have n: "next_f (hdr ?s1 b) = y" using f(5) by (simp add: r(3))
  have c: "isfree (hdr ?s1 y) \<noteq> 0" using fr by (simp add: r(2))
  have f1: "isfree (hdr ?s1 p) \<noteq> 0" using fl by (simp add: r(2))
  note r2 = merge_heap_ok [OF r(1) f1]
  show e: "lfree K (blk_add b 1) s = ?s2"
    using c yb lfree_block [OF hb(1) hb(3), of K] by (simp add: n)
  show "heap_ok (lfree K (blk_add b 1) s) (xs @ p # ys)"
    unfolding e by (rule r2(1))
  show "isfree (hdr (lfree K (blk_add b 1) s) p) \<noteq> 0"
    unfolding e using fl by (simp add: r2(2) r(2))
  show "size_f (hdr (lfree K (blk_add b 1) s) p) =
           size_f (hdr s p) + size_f (hdr s b) + size_f (hdr s y)"
    unfolding e using yb by (simp add: r2(4) r(4) r(5))
  have "no_adjacent_free (hdr s) (xs @ p # ys)"
    using naf fr by (auto simp: no_adjacent_free_append no_adjacent_free_Cons)
  then show "no_adjacent_free (hdr (lfree K (blk_add b 1) s)) (xs @ p # ys)"
    unfolding e by (simp add: naf_isfree_eq [of "hdr ?s2" "hdr s"] r2(2) r(2))
qed

(*S14*)
subsection \<open>Allocation on every path\<close>

lemma lmalloc_scan_find:
  "bpath (hdr s) pv p bs 0 \<Longrightarrow>
   lmalloc_scan K sz p s =
     Some (case find (fits (hdr s) sz) bs of
             None \<Rightarrow> lmalloc_new_block K sz s
           | Some b \<Rightarrow> take_block b sz s)"
proof (induction bs arbitrary: pv p)
  case Nil
  then show ?case by (simp add: lmalloc_scan_end)
next
  case (Cons a bs)
  from Cons.prems have p: "p = a" "a \<noteq> 0" and r: "bpath (hdr s) a (next_f (hdr s a)) bs 0"
    by simp_all
  show ?case
  proof (cases "fits (hdr s) sz a")
    case True
    then show ?thesis using p by (simp add: lmalloc_scan_hit)
  next
    case False
    then have "lmalloc_scan K sz a s = lmalloc_scan K sz (next_f (hdr s a)) s"
      using p(2) by (subst lmalloc_scan.simps) (auto simp: fits_def)
    with False p Cons.IH [OF r] show ?thesis by simp
  qed
qed

lemma lmalloc_heap_path:
  assumes "heap_ok s bs" "\<not> LMEM_MMAP_TRESHOLD \<le> len"
  shows "lmalloc K len s =
     Some (case find (fits (hdr s) (block_units len)) bs of
             None \<Rightarrow> lmalloc_new_block K (block_units len) s
           | Some b \<Rightarrow> take_block b (block_units len) s)"
  using assms lmalloc_scan_find [of s 0 "head s" bs K "block_units len"]
  by (simp add: lmalloc_def heap_ok_def blist_def)

lemma find_first_fit:
  "find P bs = Some b \<Longrightarrow> \<exists>xs ys. bs = xs @ b # ys \<and> P b \<and> (\<forall>x\<in>set xs. \<not> P x)"
proof (induction bs)
  case Nil
  then show ?case by simp
next
  case (Cons a bs)
  show ?case
  proof (cases "P a")
    case True
    with Cons.prems have "a # bs = [] @ b # bs \<and> P b \<and> (\<forall>x\<in>set []. \<not> P x)" by simp
    then show ?thesis by blast
  next
    case False
    with Cons obtain xs ys where "bs = xs @ b # ys" "P b" "\<forall>x\<in>set xs. \<not> P x" by auto
    with False have "a # bs = (a # xs) @ b # ys \<and> P b \<and> (\<forall>x\<in>set (a # xs). \<not> P x)" by simp
    then show ?thesis by blast
  qed
qed

(*S15*)
lemma blk_sub_add [simp]: "blk_sub (blk_add b n) n = b"
  by (simp add: blk_sub_def blk_add_def)

lemma blk_add_sub [simp]: "blk_add (blk_sub p n) n = p"
  by (simp add: blk_sub_def blk_add_def)

lemma lmalloc_mmap_path:
  assumes "LMEM_MMAP_TRESHOLD \<le> len"
  shows "lmalloc K len s =
     Some (let blk = fst (sys_mmap K (mmap_len len) (os s));
               s1 = s\<lparr>os := snd (sys_mmap K (mmap_len len) (os s))\<rparr>
           in if blk = MAP_FAILED then (0, s1)
              else (blk_add blk 1, st_size blk (mmap_len len) (st_next blk LMEM_NEXT_MMAP s1)))"
  using assms by (simp add: lmalloc_def Let_def split: prod.splits)

lemma lmalloc_mmap_post:
  assumes ok: "heap_ok s bs" and naf: "no_adjacent_free (hdr s) bs"
    and big: "LMEM_MMAP_TRESHOLD \<le> len" and fresh: "os_grants_fresh K s bs len"
  shows "\<exists>p s'. lmalloc K len s = Some (p, s') \<and> alloc_post s bs p s' bs"
proof -
  let ?blk = "fst (sys_mmap K (mmap_len len) (os s))"
  let ?s1 = "s\<lparr>os := snd (sys_mmap K (mmap_len len) (os s))\<rparr>"
  let ?s2 = "st_size ?blk (mmap_len len) (st_next ?blk LMEM_NEXT_MMAP ?s1)"
  from fresh big have nin: "?blk \<notin> set bs" by (simp add: os_grants_fresh_def)
  have n0: "\<not> heap_resident s bs 0"
    using heap_block_facts(1) [OF ok, of "blk_sub 0 1"] by (auto simp: heap_resident_def)
  have hx: "hdr ?s2 x = hdr s x" if "x \<in> set bs" for x
  proof -
    from that nin have "x \<noteq> ?blk" by blast
    then show ?thesis by (simp add: st_size_def st_next_def)
  qed
  have 1: "heap_ok ?s2 bs"
    using ok by (rule heap_ok_fields) (simp_all add: hx, simp_all add: st_size_def st_next_def)
  have 2: "no_adjacent_free (hdr ?s2) bs"
    using naf by (rule naf_cong_list) (simp add: hx)
  have 3: "heap_ok ?s1 bs" using ok by (rule heap_ok_fields) simp_all
  have 4: "\<not> heap_resident s bs (blk_add ?blk 1)"
    using nin by (simp add: heap_resident_def)
  show ?thesis
  proof (cases "?blk = MAP_FAILED")
    case True
    then have "lmalloc K len s = Some (0, ?s1)"
      using big by (simp add: lmalloc_mmap_path Let_def)
    moreover have "alloc_post s bs 0 ?s1 bs"
      using 3 naf n0 by (simp add: alloc_post_def)
    ultimately show ?thesis by blast
  next
    case False
    then have "lmalloc K len s = Some (blk_add ?blk 1, ?s2)"
      using big by (simp add: lmalloc_mmap_path Let_def)
    moreover have "alloc_post s bs (blk_add ?blk 1) ?s2 bs"
      using 1 2 4 hx by (simp add: alloc_post_def st_size_def st_next_def)
    ultimately show ?thesis by blast
  qed
qed

(*S16*)
lemma take_block_frame:
  assumes ok: "heap_ok s (xs @ b # ys)" and sz: "sz \<noteq> 0" "sz \<le> size_f (hdr s b)"
  shows "bytes (snd (take_block b sz s)) = bytes s"
    and "\<And>x. x \<in> set xs \<or> x \<in> set ys \<Longrightarrow>
           isfree (hdr (snd (take_block b sz s)) x) = isfree (hdr s x)"
    and "isfree (hdr (snd (take_block b sz s)) b) = 0"
    and "size_f (hdr (snd (take_block b sz s)) b) = sz"
proof -
  note l = heap_ok_links [OF ok]
  show "bytes (snd (take_block b sz s)) = bytes s"
    by (simp add: take_block_eq st_isfree_def lmem_split_block_def Let_def st_size_def
        st_prev_def st_next_def)
  show "isfree (hdr (snd (take_block b sz s)) b) = 0"
    by (simp add: take_block_eq st_isfree_def)
  show "isfree (hdr (snd (take_block b sz s)) x) = isfree (hdr s x)"
    if "x \<in> set xs \<or> x \<in> set ys" for x
  proof (cases "sz < size_f (hdr s b)")
    case True
    note f = split_facts [OF ok sz(1) True] and hd' = split_hdr [OF ok sz(1) True]
    from that f(4-7) have "x \<noteq> b" "x \<noteq> blk_add b sz" by blast+
    then show ?thesis using True by (simp add: take_block_eq st_isfree_def hd'(1) Let_def)
  next
    case False
    from that l(4,5) have "x \<noteq> b" by blast
    then show ?thesis using False by (simp add: take_block_eq st_isfree_def)
  qed
  show "size_f (hdr (snd (take_block b sz s)) b) = sz"
  proof (cases "sz < size_f (hdr s b)")
    case True
    note f = split_facts [OF ok sz(1) True] and hd' = split_hdr [OF ok sz(1) True]
    show ?thesis using True f(2) f(10) by (simp add: take_block_eq st_isfree_def hd'(1) Let_def)
  next
    case False
    with sz(2) have "size_f (hdr s b) = sz" by simp
    then show ?thesis using False by (simp add: take_block_eq st_isfree_def)
  qed
qed

lemma take_block_post:
  assumes ok: "heap_ok s (xs @ b # ys)" and naf: "no_adjacent_free (hdr s) (xs @ b # ys)"
    and sz: "sz \<noteq> 0" and fit: "fits (hdr s) sz b"
  shows "alloc_post s (xs @ b # ys) (fst (take_block b sz s)) (snd (take_block b sz s))
           (if sz < size_f (hdr s b) then xs @ b # blk_add b sz # ys else xs @ b # ys)"
proof -
  from fit have fr: "isfree (hdr s b) \<noteq> 0" and le: "sz \<le> size_f (hdr s b)"
    by (simp_all add: fits_def)
  note fm = take_block_frame [OF ok sz le]
  note l = heap_ok_links [OF ok]
  have nr: "\<not> heap_resident s (xs @ b # ys) (fst (take_block b sz s))"
    using fr by (simp add: take_block_eq heap_resident_def)
  have keep: "\<forall>x\<in>set (xs @ b # ys). isfree (hdr s x) = 0 \<longrightarrow> isfree (hdr (snd (take_block b sz s)) x) = 0"
    using fm(2) fm(3) by auto
  show ?thesis
  proof (cases "sz < size_f (hdr s b)")
    case True
    from lmalloc_take_split [OF ok naf sz True fr] True
    have "heap_ok (snd (take_block b sz s)) (xs @ b # blk_add b sz # ys)"
      "no_adjacent_free (hdr (snd (take_block b sz s))) (xs @ b # blk_add b sz # ys)"
      by (simp_all add: take_block_eq)
    with True nr keep fm(1) show ?thesis by (auto simp: alloc_post_def)
  next
    case False
    from lmalloc_take_whole [OF ok naf] False
    have "heap_ok (snd (take_block b sz s)) (xs @ b # ys)"
      "no_adjacent_free (hdr (snd (take_block b sz s))) (xs @ b # ys)"
      by (simp_all add: take_block_eq)
    with False nr keep fm(1) show ?thesis by (auto simp: alloc_post_def)
  qed
qed

lemma new_block_post:
  assumes ok: "heap_ok s bs" and naf: "no_adjacent_free (hdr s) bs"
    and small: "\<not> LMEM_MMAP_TRESHOLD \<le> len" and fresh: "os_grants_fresh K s bs len"
  shows "\<exists>bs'. alloc_post s bs (fst (lmalloc_new_block K (block_units len) s))
           (snd (lmalloc_new_block K (block_units len) s)) bs'"
proof -
  let ?sz = "block_units len"
  let ?blk = "fst (new_memblk K ?sz s)"
  let ?r = "lmalloc_new_block K ?sz s"
  have sz: "?sz \<noteq> 0" using small block_units_ceiling(2) [of len] by simp
  have n0: "\<not> heap_resident s bs 0"
    using heap_block_facts(1) [OF ok, of "blk_sub 0 1"] by (auto simp: heap_resident_def)
  show ?thesis
  proof (cases "?blk = BRK_FAILED")
    case True
    then have e: "?r = (0, snd (new_memblk K ?sz s))" by (rule lmalloc_new_block_fail)
    note fr = new_memblk_frame [of K ?sz s]
    have "heap_ok (snd (new_memblk K ?sz s)) bs"
      using ok by (rule heap_ok_fields) (simp_all add: fr)
    then have "alloc_post s bs (fst ?r) (snd ?r) bs"
      using naf n0 by (simp add: e alloc_post_def fr)
    then show ?thesis ..
  next
    case False
    with fresh small have b: "?blk \<noteq> 0" "unat ?blk + 32 * unat ?sz < 2 ^ 64"
      "bs = [] \<or> block_end (hdr s) (last bs) = unat ?blk"
      by (simp_all add: os_grants_fresh_def Let_def)
    note r = lmalloc_new_block_ok [OF ok refl False b sz]
    have nt: "?blk \<noteq> tail s"
      using heap_ok_head_tail(2,4) [OF ok] r(4) b(1) by (cases "bs = []") auto
    note e = lmalloc_new_block_hdr [OF refl False nt]
    have 1: "no_adjacent_free (hdr (snd ?r)) bs"
      using naf by (rule naf_cong_list) (simp add: r(2))
    have 2: "no_adjacent_free (hdr (snd ?r)) (bs @ [?blk])"
      using 1 r(3) by (simp add: no_adjacent_free_append)
    have 3: "\<not> heap_resident s bs (fst ?r)"
      using r(4) by (simp add: e(1) heap_resident_def)
    have "alloc_post s bs (fst ?r) (snd ?r) (bs @ [?blk])"
      using r(1) 2 3 r(2) by (auto simp: alloc_post_def e(5))
    then show ?thesis ..
  qed
qed

lemma lmalloc_post:
  assumes ok: "heap_ok s bs" and naf: "no_adjacent_free (hdr s) bs"
    and fresh: "os_grants_fresh K s bs len"
  shows "\<exists>p s' bs'. lmalloc K len s = Some (p, s') \<and> alloc_post s bs p s' bs'"
proof (cases "LMEM_MMAP_TRESHOLD \<le> len")
  case True
  with lmalloc_mmap_post [OF ok naf True fresh] show ?thesis by blast
next
  case False
  note hp = lmalloc_heap_path [OF ok False, of K]
  have sz: "block_units len \<noteq> 0" using False block_units_ceiling(2) [of len] by simp
  show ?thesis
  proof (cases "find (fits (hdr s) (block_units len)) bs")
    case None
    from new_block_post [OF ok naf False fresh] obtain bs' where
      "alloc_post s bs (fst (lmalloc_new_block K (block_units len) s))
           (snd (lmalloc_new_block K (block_units len) s)) bs'" ..
    moreover have "lmalloc K len s = Some (fst (lmalloc_new_block K (block_units len) s),
        snd (lmalloc_new_block K (block_units len) s))"
      using hp None by simp
    ultimately show ?thesis by blast
  next
    case (Some b)
    from find_first_fit [OF Some] obtain xs ys where
      bs: "bs = xs @ b # ys" and fit: "fits (hdr s) (block_units len) b" by blast
    from take_block_post [OF ok [unfolded bs] naf [unfolded bs] sz fit]
    have "\<exists>bs'. alloc_post s bs (fst (take_block b (block_units len) s))
        (snd (take_block b (block_units len) s)) bs'"
      unfolding bs by blast
    moreover have "lmalloc K len s = Some (fst (take_block b (block_units len) s),
        snd (take_block b (block_units len) s))"
      using hp Some by simp
    ultimately show ?thesis by blast
  qed
qed

(*S17*)
subsection \<open>Release: coalescing\<close>



lemma lfree_coalesces:
  assumes ok: "heap_ok s (xs @ b # ys)" and naf: "no_adjacent_free (hdr s) (xs @ b # ys)"
  shows "heap_ok (lfree K (blk_add b 1) s) (coalesced_list (hdr s) xs b ys)"
    and "no_adjacent_free (hdr (lfree K (blk_add b 1) s)) (coalesced_list (hdr s) xs b ys)"
    and "isfree (hdr (lfree K (blk_add b 1) s) (merged_block (hdr s) xs b)) \<noteq> 0"
    and "size_f (hdr (lfree K (blk_add b 1) s) (merged_block (hdr s) xs b)) =
           coalesced_size (hdr s) xs b ys"
    and "b \<notin> set (coalesced_list (hdr s) xs b ys) \<or> isfree (hdr (lfree K (blk_add b 1) s) b) \<noteq> 0"
proof -
  let ?s' = "lfree K (blk_add b 1) s"
  let ?h = "hdr s"
  note l = heap_ok_links [OF ok]
  have d: "distinct (xs @ b # ys)" using ok by (rule heap_ok_distinct)
  have "heap_ok ?s' (coalesced_list ?h xs b ys) \<and>
        no_adjacent_free (hdr ?s') (coalesced_list ?h xs b ys) \<and>
        isfree (hdr ?s' (merged_block ?h xs b)) \<noteq> 0 \<and>
        size_f (hdr ?s' (merged_block ?h xs b)) = coalesced_size ?h xs b ys \<and>
        (b \<notin> set (coalesced_list ?h xs b ys) \<or> isfree (hdr ?s' b) \<noteq> 0)"
  proof (cases "left_free ?h xs")
    case L: True
    then obtain xs' p where xs: "xs = xs' @ [p]" and fl: "isfree (?h p) \<noteq> 0"
      by (cases xs rule: rev_cases) (auto simp: left_free_def)
    from ok naf xs have ok': "heap_ok s (xs' @ p # b # ys)"
      and naf': "no_adjacent_free ?h (xs' @ p # b # ys)" by simp_all
    from d xs have bp: "b \<noteq> p" "b \<notin> set xs'" "b \<notin> set ys" by auto
    show ?thesis
    proof (cases "right_free ?h ys")
      case R: True
      then obtain y ys' where ys: "ys = y # ys'" and fr: "isfree (?h y) \<noteq> 0"
        by (cases ys) (auto simp: right_free_def)
      note c = lfree_case_both [OF ok' [unfolded ys] naf' [unfolded ys] fl fr, of K]
      have "coalesced_list ?h xs b ys = xs' @ p # ys'" "merged_block ?h xs b = p"
        "coalesced_size ?h xs b ys = size_f (?h p) + size_f (?h b) + size_f (?h y)"
        using L R xs ys by (simp_all add: coalesced_list_def merged_block_def coalesced_size_def)
      with c bp ys show ?thesis by simp
    next
      case R: False
      then have nr: "ys = [] \<or> isfree (?h (hd ys)) = 0" by (auto simp: right_free_def)
      note c = lfree_case_left [OF ok' naf' fl nr, of K]
      note r = merge_heap_ok [OF ok' fl]
      have "coalesced_list ?h xs b ys = xs' @ p # ys" "merged_block ?h xs b = p"
        "coalesced_size ?h xs b ys = size_f (?h p) + size_f (?h b)"
        using L R xs by (simp_all add: coalesced_list_def merged_block_def coalesced_size_def)
      with c bp r(2) r(4) fl show ?thesis by simp
    qed
  next
    case L: False
    then have nl: "xs = [] \<or> isfree (?h (last xs)) = 0" by (auto simp: left_free_def)
    show ?thesis
    proof (cases "right_free ?h ys")
      case R: True
      then obtain y ys' where ys: "ys = y # ys'" and fr: "isfree (?h y) \<noteq> 0"
        by (cases ys) (auto simp: right_free_def)
      note c = lfree_case_right [OF ok [unfolded ys] naf [unfolded ys] nl fr, of K]
      have "coalesced_list ?h xs b ys = xs @ b # ys'" "merged_block ?h xs b = b"
        "coalesced_size ?h xs b ys = size_f (?h b) + size_f (?h y)"
        using L R ys by (simp_all add: coalesced_list_def merged_block_def coalesced_size_def)
      with c show ?thesis by simp
    next
      case R: False
      then have nr: "ys = [] \<or> isfree (?h (hd ys)) = 0" by (auto simp: right_free_def)
      note c = lfree_case_none [OF ok naf nl nr, of K]
      have "coalesced_list ?h xs b ys = xs @ b # ys" "merged_block ?h xs b = b"
        "coalesced_size ?h xs b ys = size_f (?h b)"
        using L R by (simp_all add: coalesced_list_def merged_block_def coalesced_size_def)
      moreover have "isfree (hdr (st_isfree b 1 s) b) \<noteq> 0" "size_f (hdr (st_isfree b 1 s) b) = size_f (?h b)"
        by (simp_all add: st_isfree_def)
      ultimately show ?thesis using c by simp
    qed
  qed
  then show "heap_ok ?s' (coalesced_list ?h xs b ys)"
    and "no_adjacent_free (hdr ?s') (coalesced_list ?h xs b ys)"
    and "isfree (hdr ?s' (merged_block ?h xs b)) \<noteq> 0"
    and "size_f (hdr ?s' (merged_block ?h xs b)) = coalesced_size ?h xs b ys"
    and "b \<notin> set (coalesced_list ?h xs b ys) \<or> isfree (hdr ?s' b) \<noteq> 0"
    by blast+
qed

lemma lfree_post:
  assumes ok: "heap_ok s bs" and naf: "no_adjacent_free (hdr s) bs" and b: "blk_sub p 1 \<in> set bs"
  shows "\<exists>bs'. heap_ok (lfree K p s) bs' \<and> no_adjacent_free (hdr (lfree K p s)) bs' \<and>
           (blk_sub p 1 \<notin> set bs' \<or> isfree (hdr (lfree K p s) (blk_sub p 1)) \<noteq> 0)"
proof -
  from b obtain xs ys where bs: "bs = xs @ blk_sub p 1 # ys" by (auto simp: in_set_conv_decomp)
  note c = lfree_coalesces [OF ok [unfolded bs] naf [unfolded bs], of K]
  from c(1,2,5) show ?thesis by auto
qed

(*S18*)
subsection \<open>Payload bytes and lrealloc\<close>


lemma lrealloc_heap:
  assumes "p \<noteq> 0" "next_f (hdr s (blk_sub p 1)) \<noteq> LMEM_NEXT_MMAP"
  shows "lrealloc K p len s =
     (case lmalloc K len s of
        None \<Rightarrow> None
      | Some (np, s1) \<Rightarrow>
          if np = 0 then Some (0, s1)
          else Some (np, lfree K p (s1\<lparr>bytes := memcpy np p len (bytes s1)\<rparr>)))"
  using assms by (simp add: lrealloc_def Let_def)


lemma memset_inside: "i < n \<Longrightarrow> memset dst c n m (dst + i) = c"
  by (simp add: memset_def)

lemma memset_outside: "\<not> a - dst < n \<Longrightarrow> memset dst c n m a = m a"
  by (simp add: memset_def)

lemma heap_resident_ptr:
  assumes "heap_ok s bs" "heap_resident s bs p"
  shows "p \<noteq> 0" and "next_f (hdr s (blk_sub p 1)) \<noteq> LMEM_NEXT_MMAP"
  using heap_block_facts [OF assms(1), of "blk_sub p 1"] assms(2)
  by (simp_all add: heap_resident_def)

lemma lrealloc_heap_post:
  assumes ok: "heap_ok s bs" and naf: "no_adjacent_free (hdr s) bs"
    and hr: "heap_resident s bs p" and fresh: "os_grants_fresh K s bs len"
  shows "\<exists>np s1. lmalloc K len s = Some (np, s1) \<and> isfree (hdr s1 (blk_sub p 1)) = 0 \<and>
           bytes s1 = bytes s \<and> np \<noteq> p \<and>
           lrealloc K p len s =
             Some (np, if np = 0 then s1 else lfree K p (s1\<lparr>bytes := memcpy np p len (bytes s)\<rparr>)) \<and>
           (\<exists>bs'. heap_ok (snd (the (lrealloc K p len s))) bs' \<and>
                  no_adjacent_free (hdr (snd (the (lrealloc K p len s)))) bs' \<and>
                  (np \<noteq> 0 \<longrightarrow> blk_sub p 1 \<notin> set bs' \<or>
                     isfree (hdr (snd (the (lrealloc K p len s))) (blk_sub p 1)) \<noteq> 0))"
proof -
  note pp = heap_resident_ptr [OF ok hr]
  from lmalloc_post [OF ok naf fresh] obtain np s1 bs1 where
    m: "lmalloc K len s = Some (np, s1)" and ap: "alloc_post s bs np s1 bs1" by blast
  from ap have ok1: "heap_ok s1 bs1" and naf1: "no_adjacent_free (hdr s1) bs1"
    and by1: "bytes s1 = bytes s" and sub: "set bs \<subseteq> set bs1"
    and keep: "\<forall>x\<in>set bs. isfree (hdr s x) = 0 \<longrightarrow> isfree (hdr s1 x) = 0"
    and new: "\<not> heap_resident s bs np"
    by (simp_all add: alloc_post_def)
  from hr keep have use1: "isfree (hdr s1 (blk_sub p 1)) = 0" by (auto simp: heap_resident_def)
  from hr sub have in1: "blk_sub p 1 \<in> set bs1" by (auto simp: heap_resident_def)
  from hr new have ne: "np \<noteq> p" by auto
  let ?s2 = "s1\<lparr>bytes := memcpy np p len (bytes s)\<rparr>"
  have e: "lrealloc K p len s = Some (np, if np = 0 then s1 else lfree K p ?s2)"
    using m by1 by (simp add: lrealloc_heap [OF pp])
  have ok2: "heap_ok ?s2 bs1" using ok1 by (rule heap_ok_fields) simp_all
  have naf2: "no_adjacent_free (hdr ?s2) bs1" using naf1 by simp
  from lfree_post [OF ok2 naf2 in1, of K] obtain bs2 where
    p2: "heap_ok (lfree K p ?s2) bs2" "no_adjacent_free (hdr (lfree K p ?s2)) bs2"
      "blk_sub p 1 \<notin> set bs2 \<or> isfree (hdr (lfree K p ?s2) (blk_sub p 1)) \<noteq> 0" by blast
  have "\<exists>bs'. heap_ok (snd (the (lrealloc K p len s))) bs' \<and>
                  no_adjacent_free (hdr (snd (the (lrealloc K p len s)))) bs' \<and>
                  (np \<noteq> 0 \<longrightarrow> blk_sub p 1 \<notin> set bs' \<or>
                     isfree (hdr (snd (the (lrealloc K p len s))) (blk_sub p 1)) \<noteq> 0)"
  proof (cases "np = 0")
    case True
    with ok1 naf1 show ?thesis by (auto simp: e)
  next
    case False
    with p2 show ?thesis by (auto simp: e)
  qed
  with m use1 by1 ne e show ?thesis by blast
qed

subsection \<open>Room in a block\<close>

lemma mmap_len_room: "unat len + 4127 < 2 ^ 64 \<Longrightarrow> unat len + 32 \<le> unat (mmap_len len)"
  by (simp add: mmap_len_rounds page_round_up_def)

lemma block_units_room:
  assumes "len < LMEM_MMAP_TRESHOLD"
  shows "unat len \<le> 32 * (unat (block_units len) - 1)"
proof -
  have "nat \<lceil>real (unat len) / 32\<rceil> = (unat len + 31) div 32"
    by (simp only: ceiling_div_32 nat_int)
  then have "unat (block_units len) - 1 = (unat len + 31) div 32"
    using block_units_ceiling(1) [OF assms] by simp
  then show ?thesis by simp
qed

subsection \<open>Addresses off the heap and the list of mappings\<close>

lemma off_heap_set: "off_heap h bs x = (\<forall>b\<in>set bs. \<not> in_block h b x)"
  by (induction bs) auto

lemma mappings_ok_set:
  "mappings_ok h M = (\<forall>e\<in>set M. next_f (h (fst e)) = LMEM_NEXT_MMAP \<and> size_f (h (fst e)) = snd e)"
  by (induction M) auto

lemma mappings_off_heap_set: "mappings_off_heap h bs M = (\<forall>e\<in>set M. off_heap h bs (fst e))"
  by (induction M) auto

lemma mappings_ok_frame:
  "mappings_ok h M \<Longrightarrow> (\<And>e. e \<in> set M \<Longrightarrow> h' (fst e) = h (fst e)) \<Longrightarrow> mappings_ok h' M"
  by (simp add: mappings_ok_set)

lemma mappings_ok_without:
  "mappings_ok h M \<Longrightarrow> (\<And>e. e \<in> set M \<Longrightarrow> fst e \<noteq> m \<Longrightarrow> h' (fst e) = h (fst e)) \<Longrightarrow>
   mappings_ok h' (without_mapping m M)"
  by (simp add: mappings_ok_set without_mapping_def)

lemma mappings_ok_with:
  "mappings_ok h M \<Longrightarrow> (\<And>e. e \<in> set M \<Longrightarrow> fst e \<noteq> m \<Longrightarrow> h' (fst e) = h (fst e)) \<Longrightarrow>
   next_f (h' m) = LMEM_NEXT_MMAP \<Longrightarrow> size_f (h' m) = L \<Longrightarrow>
   mappings_ok h' (with_mapping m L M)"
  by (simp add: mappings_ok_set with_mapping_def without_mapping_def)

lemma off_heap_not_block:
  assumes "heap_ok s bs" "off_heap (hdr s) bs x"
  shows "x \<notin> set bs"
proof
  assume x: "x \<in> set bs"
  from assms(1) have "contiguous (hdr s) bs" by (simp add: heap_ok_def)
  from contiguous_end_bound [OF this x] have "0 < unat (size_f (hdr s x))"
    by (simp add: unat_gt_0)
  then have "in_block (hdr s) x x" by (simp add: in_block_def block_end_def)
  with assms(2) x show False by (auto simp: off_heap_set)
qed

subsection \<open>Headers that an operation on the heap leaves alone\<close>

lemma split_frame:
  assumes ok: "heap_ok s (xs @ b # ys)" and sz: "sz \<noteq> 0" "sz < size_f (hdr s b)"
    and x: "x \<notin> set (xs @ b # ys)" "x \<noteq> blk_add b sz"
  shows "hdr (lmem_split_block b sz s) x = hdr s x"
proof -
  note f = split_facts [OF ok sz] and hd' = split_hdr [OF ok sz]
  have "next_f (hdr s b) = 0 \<or> next_f (hdr s b) \<in> set ys" using f(9) by (cases ys) auto
  with x have "next_f (hdr s b) = 0 \<or> x \<noteq> next_f (hdr s b)" by auto
  moreover from x have "x \<noteq> b" by simp
  ultimately show ?thesis using x(2) by (auto simp: hd'(1) Let_def)
qed

lemma in_block_upper:
  assumes ok: "heap_ok s (xs @ b # ys)" and sz: "sz \<noteq> 0" "sz < size_f (hdr s b)"
  shows "in_block (hdr s) b (blk_add b sz)"
proof -
  note f = split_facts [OF ok sz]
  show ?thesis using f(1) f(14) by (simp add: in_block_def block_end_def)
qed

lemma take_block_off_heap:
  assumes ok: "heap_ok s (xs @ b # ys)" and sz: "sz \<noteq> 0" "sz \<le> size_f (hdr s b)"
    and x: "off_heap (hdr s) (xs @ b # ys) x"
  shows "hdr (snd (take_block b sz s)) x = hdr s x"
    and "x \<notin> set (if sz < size_f (hdr s b) then xs @ b # blk_add b sz # ys else xs @ b # ys)"
proof -
  have nin: "x \<notin> set (xs @ b # ys)" using ok x by (rule off_heap_not_block)
  then have xb: "x \<noteq> b" by simp
  have up: "x \<noteq> blk_add b sz" if "sz < size_f (hdr s b)"
  proof
    assume "x = blk_add b sz"
    with in_block_upper [OF ok sz(1) that] have "in_block (hdr s) b x" by simp
    with x show False by (simp add: off_heap_set)
  qed
  show "hdr (snd (take_block b sz s)) x = hdr s x"
  proof (cases "sz < size_f (hdr s b)")
    case True
    from split_frame [OF ok sz(1) True nin up [OF True]] xb True show ?thesis
      by (simp add: take_block_eq st_isfree_def)
  next
    case False
    with xb show ?thesis by (simp add: take_block_eq st_isfree_def)
  qed
  show "x \<notin> set (if sz < size_f (hdr s b) then xs @ b # blk_add b sz # ys else xs @ b # ys)"
    using nin up by auto
qed

lemma new_block_frame:
  assumes ok: "heap_ok s bs"
    and blk: "fst (new_memblk K sz s) = blk" "blk \<noteq> BRK_FAILED" "blk \<noteq> 0"
    and fresh: "unat blk + 32 * unat sz < 2 ^ 64" "bs = [] \<or> block_end (hdr s) (last bs) = unat blk"
    and sz: "sz \<noteq> 0"
    and x: "x \<notin> set bs" "x \<noteq> blk"
  shows "hdr (snd (lmalloc_new_block K sz s)) x = hdr s x"
proof -
  note ht = heap_ok_head_tail [OF ok]
  note r = lmalloc_new_block_ok [OF ok blk fresh sz]
  have nt: "blk \<noteq> tail s" using ht(2) ht(4) r(4) blk(3) by (cases "bs = []") auto
  note e = lmalloc_new_block_hdr [OF blk(1) blk(2) nt]
  have "tail s = 0 \<or> x \<noteq> tail s" using ht(2) ht(4) x(1) by (cases "bs = []") auto
  then show ?thesis using x(2) by (auto simp: e(2) Let_def)
qed

lemma merge_frame:
  assumes ok: "heap_ok s (xs @ p # b # ys)" and fr: "isfree (hdr s p) \<noteq> 0"
    and x: "x \<notin> set (xs @ p # b # ys)"
  shows "hdr (lfree_left_merge b s) x = hdr s x"
proof -
  note f = merge_facts [OF ok] and hd' = merge_hdr [OF ok fr]
  have "next_f (hdr s b) = 0 \<or> next_f (hdr s b) \<in> set ys" using f(5) by (cases ys) auto
  with x have "next_f (hdr s b) = 0 \<or> x \<noteq> next_f (hdr s b)" by auto
  moreover from x have "x \<noteq> p" by simp
  ultimately show ?thesis by (auto simp: hd'(1) Let_def)
qed

lemma lfree_frame:
  assumes ok: "heap_ok s bs" and naf: "no_adjacent_free (hdr s) bs"
    and b: "blk_sub p 1 \<in> set bs" and x: "x \<notin> set bs"
  shows "hdr (lfree K p s) x = hdr s x"
proof -
  let ?b = "blk_sub p 1"
  from b obtain xs ys where bs: "bs = xs @ ?b # ys" by (auto simp: in_set_conv_decomp)
  have p: "blk_add ?b 1 = p" by simp
  note ok' = ok [unfolded bs] and naf' = naf [unfolded bs] and x' = x [unfolded bs]
  from x' have xb: "x \<noteq> ?b" by simp
  have m: "hdr (st_isfree ?b 1 s) x = hdr s x" using xb by (simp add: st_isfree_def)
  show ?thesis
  proof (cases "left_free (hdr s) xs")
    case L: True
    then obtain xs' l where xs: "xs = xs' @ [l]" and fl: "isfree (hdr s l) \<noteq> 0"
      by (cases xs rule: rev_cases) (auto simp: left_free_def)
    from ok' naf' x' xs have ok2: "heap_ok s (xs' @ l # ?b # ys)"
      and naf2: "no_adjacent_free (hdr s) (xs' @ l # ?b # ys)"
      and x2: "x \<notin> set (xs' @ l # ?b # ys)" by simp_all
    note r = merge_heap_ok [OF ok2 fl]
    have 1: "hdr (lfree_left_merge ?b s) x = hdr s x" using ok2 fl x2 by (rule merge_frame)
    show ?thesis
    proof (cases "right_free (hdr s) ys")
      case R: True
      then obtain y ys' where ys: "ys = y # ys'" and fr: "isfree (hdr s y) \<noteq> 0"
        by (cases ys) (auto simp: right_free_def)
      note c = lfree_case_both [OF ok2 [unfolded ys] naf2 [unfolded ys] fl fr, of K]
      have f1: "isfree (hdr (lfree_left_merge ?b s) l) \<noteq> 0" using fl by (simp add: r(2))
      have x3: "x \<notin> set (xs' @ l # y # ys')" using x2 ys by simp
      have "hdr (lfree_left_merge y (lfree_left_merge ?b s)) x = hdr (lfree_left_merge ?b s) x"
        using r(1) [unfolded ys] f1 x3 by (rule merge_frame)
      with 1 c(1) p show ?thesis by simp
    next
      case R: False
      then have nr: "ys = [] \<or> isfree (hdr s (hd ys)) = 0" by (auto simp: right_free_def)
      note c = lfree_case_left [OF ok2 naf2 fl nr, of K]
      with 1 p show ?thesis by simp
    qed
  next
    case L: False
    then have nl: "xs = [] \<or> isfree (hdr s (last xs)) = 0" by (auto simp: left_free_def)
    show ?thesis
    proof (cases "right_free (hdr s) ys")
      case R: True
      then obtain y ys' where ys: "ys = y # ys'" and fr: "isfree (hdr s y) \<noteq> 0"
        by (cases ys) (auto simp: right_free_def)
      note c = lfree_case_right [OF ok' [unfolded ys] naf' [unfolded ys] nl fr, of K]
      have ok1: "heap_ok (st_isfree ?b 1 s) (xs @ ?b # y # ys')"
        using ok' [unfolded ys] by (rule heap_ok_st_isfree)
      have f1: "isfree (hdr (st_isfree ?b 1 s) ?b) \<noteq> 0" by (simp add: st_isfree_def)
      have x3: "x \<notin> set (xs @ ?b # y # ys')" using x' ys by simp
      have "hdr (lfree_left_merge y (st_isfree ?b 1 s)) x = hdr (st_isfree ?b 1 s) x"
        using ok1 f1 x3 by (rule merge_frame)
      with m c(1) p show ?thesis by simp
    next
      case R: False
      then have nr: "ys = [] \<or> isfree (hdr s (hd ys)) = 0" by (auto simp: right_free_def)
      note c = lfree_case_none [OF ok' naf' nl nr, of K]
      with m p show ?thesis by simp
    qed
  qed
qed

subsection \<open>Addresses that stay off the heap\<close>

lemma off_heap_append: "off_heap h (xs @ ys) x = (off_heap h xs x \<and> off_heap h ys x)"
  by (induction xs) auto

lemma in_block_cong: "size_f (h' c) = size_f (h c) \<Longrightarrow> in_block h' c x = in_block h c x"
  by (simp add: in_block_def block_end_def)

lemma off_heap_cong:
  "(\<And>c. c \<in> set bs \<Longrightarrow> size_f (h' c) = size_f (h c)) \<Longrightarrow> off_heap h' bs x = off_heap h bs x"
  by (induction bs) (simp_all add: in_block_def block_end_def)

lemma off_heap_st_isfree: "off_heap (hdr (st_isfree a v s)) bs x = off_heap (hdr s) bs x"
  by (rule off_heap_cong) (simp add: st_isfree_def)

lemma split_off_heap:
  assumes ok: "heap_ok s (xs @ b # ys)" and sz: "sz \<noteq> 0" "sz < size_f (hdr s b)"
    and x: "off_heap (hdr s) (xs @ b # ys) x"
  shows "off_heap (hdr (lmem_split_block b sz s)) (xs @ b # blk_add b sz # ys) x"
proof -
  let ?h = "hdr s" and ?h' = "hdr (lmem_split_block b sz s)"
  let ?up = "blk_add b sz"
  note f = split_facts [OF ok sz] and hd' = split_hdr [OF ok sz]
  have hb: "size_f (?h' b) = sz" using f(2) f(10) by (simp add: hd'(1) Let_def)
  have hup: "size_f (?h' ?up) = size_f (?h b) - sz" using f(2) f(11) by (simp add: hd'(1) Let_def)
  have hc: "size_f (?h' c) = size_f (?h c)" if "c \<in> set xs \<or> c \<in> set ys" for c
  proof -
    from that f(4-7) have "c \<noteq> b" "c \<noteq> ?up" by blast+
    then show ?thesis by (simp add: hd'(1) Let_def)
  qed
  from x have nb: "\<not> in_block ?h b x" and ox: "off_heap ?h xs x" and oy: "off_heap ?h ys x"
    by (simp_all add: off_heap_append)
  have "off_heap ?h' xs x = off_heap ?h xs x" by (rule off_heap_cong) (simp add: hc)
  with ox have 1: "off_heap ?h' xs x" by simp
  have "off_heap ?h' ys x = off_heap ?h ys x" by (rule off_heap_cong) (simp add: hc)
  with oy have 2: "off_heap ?h' ys x" by simp
  have 3: "\<not> in_block ?h' b x"
    using nb f(14) by (auto simp: in_block_def block_end_def hb)
  have 4: "\<not> in_block ?h' ?up x"
    using nb f(1) f(13) f(14) f(15) by (auto simp: in_block_def block_end_def hup)
  from 1 2 3 4 show ?thesis by (simp add: off_heap_append)
qed

lemma take_block_keeps_off_heap:
  assumes ok: "heap_ok s (xs @ b # ys)" and sz: "sz \<noteq> 0" "sz \<le> size_f (hdr s b)"
    and x: "off_heap (hdr s) (xs @ b # ys) x"
  shows "off_heap (hdr (snd (take_block b sz s)))
           (if sz < size_f (hdr s b) then xs @ b # blk_add b sz # ys else xs @ b # ys) x"
proof (cases "sz < size_f (hdr s b)")
  case True
  from split_off_heap [OF ok sz(1) True x] True show ?thesis
    by (simp add: take_block_eq off_heap_st_isfree)
next
  case False
  with x show ?thesis by (simp add: take_block_eq off_heap_st_isfree)
qed

lemma new_block_keeps_off_heap:
  assumes ok: "heap_ok s bs"
    and blk: "fst (new_memblk K sz s) = blk" "blk \<noteq> BRK_FAILED" "blk \<noteq> 0"
    and fresh: "unat blk + 32 * unat sz < 2 ^ 64" "bs = [] \<or> block_end (hdr s) (last bs) = unat blk"
    and sz: "sz \<noteq> 0"
    and x: "off_heap (hdr s) bs x" "\<not> (unat blk \<le> unat x \<and> unat x < unat blk + 32 * unat sz)"
  shows "off_heap (hdr (snd (lmalloc_new_block K sz s))) (bs @ [blk]) x"
proof -
  let ?h' = "hdr (snd (lmalloc_new_block K sz s))"
  note ht = heap_ok_head_tail [OF ok]
  note r = lmalloc_new_block_ok [OF ok blk fresh sz]
  have nt: "blk \<noteq> tail s" using ht(2) ht(4) r(4) blk(3) by (cases "bs = []") auto
  note e = lmalloc_new_block_hdr [OF blk(1) blk(2) nt]
  have hc: "size_f (?h' c) = size_f (hdr s c)" if "c \<in> set bs" for c
  proof -
    from that r(4) have "c \<noteq> blk" by blast
    then show ?thesis by (simp add: e(2) Let_def)
  qed
  have "off_heap ?h' bs x = off_heap (hdr s) bs x" by (rule off_heap_cong) (simp add: hc)
  with x(1) have 1: "off_heap ?h' bs x" by simp
  have "size_f (?h' blk) = sz" using nt by (simp add: e(2) Let_def)
  then have 2: "\<not> in_block ?h' blk x" using x(2) by (simp add: in_block_def block_end_def)
  from 1 2 show ?thesis by (simp add: off_heap_append)
qed

lemma merge_off_heap:
  assumes ok: "heap_ok s (xs @ p # b # ys)" and fr: "isfree (hdr s p) \<noteq> 0"
    and x: "off_heap (hdr s) (xs @ p # b # ys) x"
  shows "off_heap (hdr (lfree_left_merge b s)) (xs @ p # ys) x"
proof -
  let ?h = "hdr s" and ?h' = "hdr (lfree_left_merge b s)"
  note f = merge_facts [OF ok] and r = merge_heap_ok [OF ok fr]
  from x have np: "\<not> in_block ?h p x" and nb: "\<not> in_block ?h b x"
    and ox: "off_heap ?h xs x" and oy: "off_heap ?h ys x"
    by (simp_all add: off_heap_append)
  have hc: "size_f (?h' c) = size_f (?h c)" if "c \<in> set xs \<or> c \<in> set ys" for c
  proof -
    from that f(7) f(9) have "c \<noteq> p" by blast
    then show ?thesis by (rule r(5))
  qed
  have "off_heap ?h' xs x = off_heap ?h xs x" by (rule off_heap_cong) (simp add: hc)
  with ox have 1: "off_heap ?h' xs x" by simp
  have "off_heap ?h' ys x = off_heap ?h ys x" by (rule off_heap_cong) (simp add: hc)
  with oy have 2: "off_heap ?h' ys x" by simp
  have "block_end ?h' p = block_end ?h b"
    using f(14) f(15) by (simp add: block_end_def r(4))
  then have 3: "\<not> in_block ?h' p x"
    using np nb f(15) by (auto simp: in_block_def block_end_def)
  from 1 2 3 show ?thesis by (simp add: off_heap_append)
qed

lemma lfree_keeps_off_heap:
  assumes ok: "heap_ok s (xs @ b # ys)" and naf: "no_adjacent_free (hdr s) (xs @ b # ys)"
    and x: "off_heap (hdr s) (xs @ b # ys) x"
  shows "off_heap (hdr (lfree K (blk_add b 1) s)) (coalesced_list (hdr s) xs b ys) x"
proof -
  have m: "off_heap (hdr (st_isfree b 1 s)) bs' x = off_heap (hdr s) bs' x" for bs'
    by (rule off_heap_st_isfree)
  show ?thesis
  proof (cases "left_free (hdr s) xs")
    case L: True
    then obtain xs' l where xs: "xs = xs' @ [l]" and fl: "isfree (hdr s l) \<noteq> 0"
      by (cases xs rule: rev_cases) (auto simp: left_free_def)
    from ok naf x xs have ok2: "heap_ok s (xs' @ l # b # ys)"
      and naf2: "no_adjacent_free (hdr s) (xs' @ l # b # ys)"
      and x2: "off_heap (hdr s) (xs' @ l # b # ys) x" by simp_all
    note r = merge_heap_ok [OF ok2 fl]
    have 1: "off_heap (hdr (lfree_left_merge b s)) (xs' @ l # ys) x"
      using ok2 fl x2 by (rule merge_off_heap)
    show ?thesis
    proof (cases "right_free (hdr s) ys")
      case R: True
      then obtain y ys' where ys: "ys = y # ys'" and fr: "isfree (hdr s y) \<noteq> 0"
        by (cases ys) (auto simp: right_free_def)
      note c = lfree_case_both [OF ok2 [unfolded ys] naf2 [unfolded ys] fl fr, of K]
      have f1: "isfree (hdr (lfree_left_merge b s) l) \<noteq> 0" using fl by (simp add: r(2))
      have "off_heap (hdr (lfree_left_merge y (lfree_left_merge b s))) (xs' @ l # ys') x"
        using r(1) [unfolded ys] f1 1 [unfolded ys] by (rule merge_off_heap)
      moreover have "coalesced_list (hdr s) xs b ys = xs' @ l # ys'"
        using L R xs ys by (simp add: coalesced_list_def merged_block_def)
      ultimately show ?thesis by (simp add: c(1))
    next
      case R: False
      then have nr: "ys = [] \<or> isfree (hdr s (hd ys)) = 0" by (auto simp: right_free_def)
      note c = lfree_case_left [OF ok2 naf2 fl nr, of K]
      have "coalesced_list (hdr s) xs b ys = xs' @ l # ys"
        using L R xs by (simp add: coalesced_list_def merged_block_def)
      with 1 show ?thesis by (simp add: c(1))
    qed
  next
    case L: False
    then have nl: "xs = [] \<or> isfree (hdr s (last xs)) = 0" by (auto simp: left_free_def)
    show ?thesis
    proof (cases "right_free (hdr s) ys")
      case R: True
      then obtain y ys' where ys: "ys = y # ys'" and fr: "isfree (hdr s y) \<noteq> 0"
        by (cases ys) (auto simp: right_free_def)
      note c = lfree_case_right [OF ok [unfolded ys] naf [unfolded ys] nl fr, of K]
      have ok1: "heap_ok (st_isfree b 1 s) (xs @ b # y # ys')"
        using ok [unfolded ys] by (rule heap_ok_st_isfree)
      have f1: "isfree (hdr (st_isfree b 1 s) b) \<noteq> 0" by (simp add: st_isfree_def)
      have x1: "off_heap (hdr (st_isfree b 1 s)) (xs @ b # y # ys') x"
        using x ys by (simp add: m)
      have "off_heap (hdr (lfree_left_merge y (st_isfree b 1 s))) (xs @ b # ys') x"
        using ok1 f1 x1 by (rule merge_off_heap)
      moreover have "coalesced_list (hdr s) xs b ys = xs @ b # ys'"
        using L R ys by (simp add: coalesced_list_def merged_block_def)
      ultimately show ?thesis by (simp add: c(1))
    next
      case R: False
      then have nr: "ys = [] \<or> isfree (hdr s (hd ys)) = 0" by (auto simp: right_free_def)
      note c = lfree_case_none [OF ok naf nl nr, of K]
      have "coalesced_list (hdr s) xs b ys = xs @ b # ys"
        using L R by (simp add: coalesced_list_def merged_block_def)
      with x show ?thesis by (simp add: c(1) m)
    qed
  qed
qed

subsection \<open>What an allocation returns\<close>

lemma new_block_hdr_at:
  assumes ok: "heap_ok s bs"
    and blk: "fst (new_memblk K sz s) = blk" "blk \<noteq> BRK_FAILED" "blk \<noteq> 0"
    and fresh: "unat blk + 32 * unat sz < 2 ^ 64" "bs = [] \<or> block_end (hdr s) (last bs) = unat blk"
    and sz: "sz \<noteq> 0"
  shows "size_f (hdr (snd (lmalloc_new_block K sz s)) blk) = sz"
    and "next_f (hdr (snd (lmalloc_new_block K sz s)) blk) = 0"
    and "fst (lmalloc_new_block K sz s) = blk_add blk 1"
proof -
  note ht = heap_ok_head_tail [OF ok]
  note r = lmalloc_new_block_ok [OF ok blk fresh sz]
  have nt: "blk \<noteq> tail s" using ht(2) ht(4) r(4) blk(3) by (cases "bs = []") auto
  note e = lmalloc_new_block_hdr [OF blk(1) blk(2) nt]
  show "size_f (hdr (snd (lmalloc_new_block K sz s)) blk) = sz"
    "next_f (hdr (snd (lmalloc_new_block K sz s)) blk) = 0"
    using nt by (simp_all add: e(2) Let_def)
  show "fst (lmalloc_new_block K sz s) = blk_add blk 1" by (rule e(1))
qed

lemma new_block_post_list:
  assumes ok: "heap_ok s bs" and naf: "no_adjacent_free (hdr s) bs"
    and small: "\<not> LMEM_MMAP_TRESHOLD \<le> len" and fresh: "os_grants_fresh K s bs len"
  shows "alloc_post s bs (fst (lmalloc_new_block K (block_units len) s))
           (snd (lmalloc_new_block K (block_units len) s))
           (if fst (new_memblk K (block_units len) s) = BRK_FAILED then bs
            else bs @ [fst (new_memblk K (block_units len) s)])"
proof -
  let ?sz = "block_units len"
  let ?blk = "fst (new_memblk K ?sz s)"
  let ?r = "lmalloc_new_block K ?sz s"
  have sz: "?sz \<noteq> 0" using small block_units_ceiling(2) [of len] by simp
  have n0: "\<not> heap_resident s bs 0"
    using heap_block_facts(1) [OF ok, of "blk_sub 0 1"] by (auto simp: heap_resident_def)
  show ?thesis
  proof (cases "?blk = BRK_FAILED")
    case True
    then have e: "?r = (0, snd (new_memblk K ?sz s))" by (rule lmalloc_new_block_fail)
    note fr = new_memblk_frame [of K ?sz s]
    have "heap_ok (snd (new_memblk K ?sz s)) bs"
      using ok by (rule heap_ok_fields) (simp_all add: fr)
    then have "alloc_post s bs (fst ?r) (snd ?r) bs"
      using naf n0 by (simp add: e alloc_post_def fr)
    with True show ?thesis by simp
  next
    case False
    with fresh small have b: "?blk \<noteq> 0" "unat ?blk + 32 * unat ?sz < 2 ^ 64"
      "bs = [] \<or> block_end (hdr s) (last bs) = unat ?blk"
      by (simp_all add: os_grants_fresh_def Let_def)
    note r = lmalloc_new_block_ok [OF ok refl False b sz]
    have nt: "?blk \<noteq> tail s"
      using heap_ok_head_tail(2,4) [OF ok] r(4) b(1) by (cases "bs = []") auto
    note e = lmalloc_new_block_hdr [OF refl False nt]
    have 1: "no_adjacent_free (hdr (snd ?r)) bs"
      using naf by (rule naf_cong_list) (simp add: r(2))
    have 2: "no_adjacent_free (hdr (snd ?r)) (bs @ [?blk])"
      using 1 r(3) by (simp add: no_adjacent_free_append)
    have 3: "\<not> heap_resident s bs (fst ?r)"
      using r(4) by (simp add: e(1) heap_resident_def)
    have "alloc_post s bs (fst ?r) (snd ?r) (bs @ [?blk])"
      using r(1) 2 3 r(2) by (auto simp: alloc_post_def e(5))
    with False show ?thesis by simp
  qed
qed

lemma take_block_usable:
  assumes ok: "heap_ok s (xs @ b # ys)" and sz: "sz \<noteq> 0" "sz \<le> size_f (hdr s b)"
  shows "usable_size (hdr (snd (take_block b sz s))) b = 32 * (unat sz - 1)"
proof -
  let ?r = "take_block b sz s"
  let ?bs1 = "if sz < size_f (hdr s b) then xs @ b # blk_add b sz # ys else xs @ b # ys"
  have ok1: "heap_ok (snd ?r) ?bs1"
  proof (cases "sz < size_f (hdr s b)")
    case True
    have "heap_ok (st_isfree b 0 (lmem_split_block b sz s)) (xs @ b # blk_add b sz # ys)"
      using split_heap_ok [OF ok sz(1) True] by (rule heap_ok_st_isfree)
    with True show ?thesis by (simp add: take_block_eq)
  next
    case False
    have "heap_ok (st_isfree b 0 s) (xs @ b # ys)" using ok by (rule heap_ok_st_isfree)
    with False show ?thesis by (simp add: take_block_eq)
  qed
  have "b \<in> set ?bs1" by simp
  from heap_block_facts(3) [OF ok1 this]
  have "next_f (hdr (snd ?r) b) \<noteq> LMEM_NEXT_MMAP" .
  moreover have "size_f (hdr (snd ?r) b) = sz" using take_block_frame(4) [OF ok sz] .
  ultimately show ?thesis by (simp add: usable_size_def)
qed

lemma lmalloc_room:
  assumes ok: "heap_ok s bs" and fresh: "os_grants_fresh K s bs len"
    and nw: "unat len + 4127 < 2 ^ 64"
  shows "\<exists>q s1. lmalloc K len s = Some (q, s1) \<and>
           (q \<noteq> 0 \<longrightarrow> unat len \<le> usable_size (hdr s1) (blk_sub q 1))"
proof (cases "LMEM_MMAP_TRESHOLD \<le> len")
  case True
  let ?blk = "fst (sys_mmap K (mmap_len len) (os s))"
  let ?s1 = "s\<lparr>os := snd (sys_mmap K (mmap_len len) (os s))\<rparr>"
  let ?s2 = "st_size ?blk (mmap_len len) (st_next ?blk LMEM_NEXT_MMAP ?s1)"
  show ?thesis
  proof (cases "?blk = MAP_FAILED")
    case F: True
    then have "lmalloc K len s = Some (0, ?s1)" using True by (simp add: lmalloc_mmap_path Let_def)
    then show ?thesis by simp
  next
    case F: False
    then have m: "lmalloc K len s = Some (blk_add ?blk 1, ?s2)"
      using True by (simp add: lmalloc_mmap_path Let_def)
    have "next_f (hdr ?s2 ?blk) = LMEM_NEXT_MMAP" "size_f (hdr ?s2 ?blk) = mmap_len len"
      by (simp_all add: st_size_def st_next_def)
    then have "usable_size (hdr ?s2) (blk_sub (blk_add ?blk 1) 1) = unat (mmap_len len) - 32"
      by (simp add: usable_size_def)
    moreover have "unat len \<le> unat (mmap_len len) - 32"
      using mmap_len_room [OF nw] by linarith
    ultimately have "unat len \<le> usable_size (hdr ?s2) (blk_sub (blk_add ?blk 1) 1)"
      by (simp only:)
    with m show ?thesis by blast
  qed
next
  case False
  let ?sz = "block_units len"
  note hp = lmalloc_heap_path [OF ok False, of K]
  have sz: "?sz \<noteq> 0" using False block_units_ceiling(2) [of len] by simp
  have small: "len < LMEM_MMAP_TRESHOLD" using False by simp
  show ?thesis
  proof (cases "find (fits (hdr s) ?sz) bs")
    case None
    let ?r = "lmalloc_new_block K ?sz s"
    let ?blk = "fst (new_memblk K ?sz s)"
    have m: "lmalloc K len s = Some (fst ?r, snd ?r)" using hp None by simp
    have "unat len \<le> usable_size (hdr (snd ?r)) (blk_sub (fst ?r) 1)" if "fst ?r \<noteq> 0"
    proof -
      have F: "?blk \<noteq> BRK_FAILED"
      proof
        assume "?blk = BRK_FAILED"
        then have "?r = (0, snd (new_memblk K ?sz s))" by (rule lmalloc_new_block_fail)
        with that show False by simp
      qed
      with fresh False have b: "?blk \<noteq> 0" "unat ?blk + 32 * unat ?sz < 2 ^ 64"
        "bs = [] \<or> block_end (hdr s) (last bs) = unat ?blk"
        by (simp_all add: os_grants_fresh_def Let_def)
      note h = new_block_hdr_at [OF ok refl F b sz]
      have "usable_size (hdr (snd ?r)) (blk_sub (fst ?r) 1) = 32 * (unat ?sz - 1)"
        by (simp add: h usable_size_def LMEM_NEXT_MMAP_def)
      with block_units_room [OF small] show ?thesis by simp
    qed
    with m show ?thesis by blast
  next
    case (Some b)
    let ?r = "take_block b ?sz s"
    from find_first_fit [OF Some] obtain xs ys where
      bs: "bs = xs @ b # ys" and fit: "fits (hdr s) ?sz b" by blast
    from fit have le: "?sz \<le> size_f (hdr s b)" by (simp add: fits_def)
    have m: "lmalloc K len s = Some (fst ?r, snd ?r)" using hp Some by simp
    have "usable_size (hdr (snd ?r)) (blk_sub (fst ?r) 1) = 32 * (unat ?sz - 1)"
      using take_block_usable [OF ok [unfolded bs] sz le] by (simp add: take_block_eq)
    with block_units_room [OF small]
    have "unat len \<le> usable_size (hdr (snd ?r)) (blk_sub (fst ?r) 1)" by simp
    with m show ?thesis by blast
  qed
qed

lemma lmalloc_result:
  assumes ok: "heap_ok s bs" and naf: "no_adjacent_free (hdr s) bs"
    and fresh: "os_grants_fresh K s bs len"
  shows "\<exists>q s1 bs1. lmalloc K len s = Some (q, s1) \<and> alloc_post s bs q s1 bs1 \<and>
           (\<forall>x. off_heap (hdr s) bs x \<and> x \<noteq> granted K s len \<longrightarrow>
                hdr s1 x = hdr s x \<and> x \<notin> set bs1) \<and>
           (\<forall>x. off_heap (hdr s) bs x \<and> \<not> in_new_heap K s len x \<longrightarrow> off_heap (hdr s1) bs1 x) \<and>
           (LMEM_MMAP_TRESHOLD \<le> len \<longrightarrow>
              bs1 = bs \<and> os s1 = snd (sys_mmap K (mmap_len len) (os s)) \<and>
              (granted K s len \<noteq> MAP_FAILED \<longrightarrow>
                 q = blk_add (granted K s len) 1 \<and>
                 next_f (hdr s1 (granted K s len)) = LMEM_NEXT_MMAP \<and>
                 size_f (hdr s1 (granted K s len)) = mmap_len len))"
proof (cases "LMEM_MMAP_TRESHOLD \<le> len")
  case True
  let ?blk = "fst (sys_mmap K (mmap_len len) (os s))"
  let ?s1 = "s\<lparr>os := snd (sys_mmap K (mmap_len len) (os s))\<rparr>"
  let ?s2 = "st_size ?blk (mmap_len len) (st_next ?blk LMEM_NEXT_MMAP ?s1)"
  have g: "granted K s len = ?blk" using True by (simp add: granted_def)
  from lmalloc_mmap_post [OF ok naf True fresh] obtain q s1 where
    m: "lmalloc K len s = Some (q, s1)" and ap: "alloc_post s bs q s1 bs" by blast
  have e: "(q, s1) = (if ?blk = MAP_FAILED then (0, ?s1) else (blk_add ?blk 1, ?s2))"
    using m True by (simp add: lmalloc_mmap_path Let_def)
  have fr: "hdr s1 x = hdr s x \<and> x \<notin> set bs" if "off_heap (hdr s) bs x" "x \<noteq> granted K s len" for x
  proof -
    have "x \<notin> set bs" using ok that(1) by (rule off_heap_not_block)
    moreover have "hdr s1 x = hdr s x"
      using e that(2) g by (cases "?blk = MAP_FAILED") (auto simp: st_size_def st_next_def)
    ultimately show ?thesis by simp
  qed
  have mp: "os s1 = snd (sys_mmap K (mmap_len len) (os s)) \<and>
              (granted K s len \<noteq> MAP_FAILED \<longrightarrow>
                 q = blk_add (granted K s len) 1 \<and>
                 next_f (hdr s1 (granted K s len)) = LMEM_NEXT_MMAP \<and>
                 size_f (hdr s1 (granted K s len)) = mmap_len len)"
    using e g by (cases "?blk = MAP_FAILED") (auto simp: st_size_def st_next_def)
  have oh: "off_heap (hdr s1) bs x" if "off_heap (hdr s) bs x" for x
  proof -
    from fresh True have nin: "?blk \<notin> set bs" by (simp add: os_grants_fresh_def)
    have "hdr s1 c = hdr s c" if "c \<in> set bs" for c
    proof -
      from that nin have "c \<noteq> ?blk" by blast
      with e show ?thesis by (cases "?blk = MAP_FAILED") (auto simp: st_size_def st_next_def)
    qed
    then have "off_heap (hdr s1) bs x = off_heap (hdr s) bs x"
      by (intro off_heap_cong) simp
    with that show ?thesis by simp
  qed
  from m ap fr oh mp show ?thesis by blast
next
  case False
  let ?sz = "block_units len"
  note hp = lmalloc_heap_path [OF ok False, of K]
  have sz: "?sz \<noteq> 0" using False block_units_ceiling(2) [of len] by simp
  have g: "granted K s len = fst (new_memblk K ?sz s)" using False by (simp add: granted_def)
  show ?thesis
  proof (cases "find (fits (hdr s) ?sz) bs")
    case None
    let ?r = "lmalloc_new_block K ?sz s"
    let ?blk = "fst (new_memblk K ?sz s)"
    let ?bs1 = "if ?blk = BRK_FAILED then bs else bs @ [?blk]"
    have m: "lmalloc K len s = Some (fst ?r, snd ?r)" using hp None by simp
    have ap: "alloc_post s bs (fst ?r) (snd ?r) ?bs1"
      using ok naf False fresh by (rule new_block_post_list)
    have fr: "hdr (snd ?r) x = hdr s x \<and> x \<notin> set ?bs1"
      if "off_heap (hdr s) bs x" "x \<noteq> granted K s len" for x
    proof -
      have nin: "x \<notin> set bs" using ok that(1) by (rule off_heap_not_block)
      show ?thesis
      proof (cases "?blk = BRK_FAILED")
        case True
        then have "?r = (0, snd (new_memblk K ?sz s))" by (rule lmalloc_new_block_fail)
        with True nin new_memblk_frame [of K ?sz s] show ?thesis by simp
      next
        case F: False
        with fresh False have b: "?blk \<noteq> 0" "unat ?blk + 32 * unat ?sz < 2 ^ 64"
          "bs = [] \<or> block_end (hdr s) (last bs) = unat ?blk"
          by (simp_all add: os_grants_fresh_def Let_def)
        have xb: "x \<noteq> ?blk" using that(2) g by simp
        from new_block_frame [OF ok refl F b sz nin xb] F nin xb show ?thesis by simp
      qed
    qed
    have oh: "off_heap (hdr (snd ?r)) ?bs1 x"
      if "off_heap (hdr s) bs x" "\<not> in_new_heap K s len x" for x
    proof (cases "?blk = BRK_FAILED")
      case True
      then have "?r = (0, snd (new_memblk K ?sz s))" by (rule lmalloc_new_block_fail)
      with True that(1) new_memblk_frame [of K ?sz s] show ?thesis by simp
    next
      case F: False
      with fresh False have b: "?blk \<noteq> 0" "unat ?blk + 32 * unat ?sz < 2 ^ 64"
        "bs = [] \<or> block_end (hdr s) (last bs) = unat ?blk"
        by (simp_all add: os_grants_fresh_def Let_def)
      have nr: "\<not> (unat ?blk \<le> unat x \<and> unat x < unat ?blk + 32 * unat ?sz)"
        using that(2) False g by (simp add: in_new_heap_def)
      from new_block_keeps_off_heap [OF ok refl F b sz that(1) nr] F show ?thesis by simp
    qed
    from m ap fr oh False show ?thesis by blast
  next
    case (Some b)
    let ?r = "take_block b ?sz s"
    from find_first_fit [OF Some] obtain xs ys where
      bs: "bs = xs @ b # ys" and fit: "fits (hdr s) ?sz b" by blast
    let ?bs1 = "if ?sz < size_f (hdr s b) then xs @ b # blk_add b ?sz # ys else xs @ b # ys"
    from fit have le: "?sz \<le> size_f (hdr s b)" by (simp add: fits_def)
    have m: "lmalloc K len s = Some (fst ?r, snd ?r)" using hp Some by simp
    have ap: "alloc_post s bs (fst ?r) (snd ?r) ?bs1"
      using take_block_post [OF ok [unfolded bs] naf [unfolded bs] sz fit] by (simp add: bs)
    have fr: "hdr (snd ?r) x = hdr s x \<and> x \<notin> set ?bs1" if "off_heap (hdr s) bs x" for x
      using take_block_off_heap [OF ok [unfolded bs] sz le that [unfolded bs]] by simp
    have oh: "off_heap (hdr (snd ?r)) ?bs1 x" if "off_heap (hdr s) bs x" for x
      using take_block_keeps_off_heap [OF ok [unfolded bs] sz le that [unfolded bs]] .
    from m ap fr oh False show ?thesis by blast
  qed
qed

subsection \<open>The invariant of the mappings\<close>

lemma mappings_off_heap_frame:
  "mappings_off_heap h bs M \<Longrightarrow> (\<And>e. e \<in> set M \<Longrightarrow> off_heap h bs (fst e) \<Longrightarrow> off_heap h' bs' (fst e)) \<Longrightarrow>
   mappings_off_heap h' bs' M"
  by (simp add: mappings_off_heap_set)

lemma mappings_off_heap_without:
  "mappings_off_heap h bs M \<Longrightarrow> mappings_off_heap h bs (without_mapping m M)"
  by (simp add: mappings_off_heap_set without_mapping_def)

lemma mappings_off_heap_with:
  "mappings_off_heap h bs M \<Longrightarrow> off_heap h bs m \<Longrightarrow> mappings_off_heap h bs (with_mapping m L M)"
  by (simp add: mappings_off_heap_set with_mapping_def without_mapping_def)

lemma mapping_entry:
  assumes "mappings_ok h M" "(b, L) \<in> set M"
  shows "next_f (h b) = LMEM_NEXT_MMAP" and "size_f (h b) = L"
  using assms by (auto simp: mappings_ok_set)

lemma mappings_not_blocks:
  assumes "heap_ok s bs" "mappings_off_heap (hdr s) bs M"
  shows "\<forall>e\<in>set M. fst e \<notin> set bs"
  using assms off_heap_not_block by (auto simp: mappings_off_heap_set)

lemma lmalloc_inv:
  assumes inv: "mappings_inv s bs M"
    and fresh: "os_grants_fresh K s bs len" and apart: "os_keeps_apart K s bs M len"
  shows "\<exists>q s1 bs1. lmalloc K len s = Some (q, s1) \<and> alloc_post s bs q s1 bs1 \<and>
           mappings_inv s1 bs1 (alloc_mappings K s len M) \<and>
           (LMEM_MMAP_TRESHOLD \<le> len \<and> granted K s len \<noteq> MAP_FAILED \<longrightarrow>
              q = blk_add (granted K s len) 1 \<and>
              sys_mmap K (mmap_len len) (os s) = (granted K s len, os s1))"
proof -
  from inv have ok: "heap_ok s bs" and naf: "no_adjacent_free (hdr s) bs"
    and mo: "mappings_ok (hdr s) M" and off: "mappings_off_heap (hdr s) bs M"
    by (simp_all add: mappings_inv_def)
  from lmalloc_result [OF ok naf fresh] obtain q s1 bs1 where
    m: "lmalloc K len s = Some (q, s1)" and ap: "alloc_post s bs q s1 bs1"
    and fr: "\<And>x. off_heap (hdr s) bs x \<Longrightarrow> x \<noteq> granted K s len \<Longrightarrow>
                hdr s1 x = hdr s x \<and> x \<notin> set bs1"
    and oh: "\<And>x. off_heap (hdr s) bs x \<Longrightarrow> \<not> in_new_heap K s len x \<Longrightarrow> off_heap (hdr s1) bs1 x"
    and mp: "LMEM_MMAP_TRESHOLD \<le> len \<Longrightarrow>
              bs1 = bs \<and> os s1 = snd (sys_mmap K (mmap_len len) (os s)) \<and>
              (granted K s len \<noteq> MAP_FAILED \<longrightarrow>
                 q = blk_add (granted K s len) 1 \<and>
                 next_f (hdr s1 (granted K s len)) = LMEM_NEXT_MMAP \<and>
                 size_f (hdr s1 (granted K s len)) = mmap_len len)"
    by blast
  from ap have ok1: "heap_ok s1 bs1" and naf1: "no_adjacent_free (hdr s1) bs1"
    by (simp_all add: alloc_post_def)
  have bu: "block_units len \<noteq> 0" if "\<not> LMEM_MMAP_TRESHOLD \<le> len"
    using that block_units_ceiling(2) [of len] by simp
  have e1: "fst e \<noteq> granted K s len" and e2: "\<not> in_new_heap K s len (fst e)"
    and e3: "off_heap (hdr s) bs (fst e)" if "e \<in> set M" for e
  proof -
    show "off_heap (hdr s) bs (fst e)" using off that by (simp add: mappings_off_heap_set)
    show "\<not> in_new_heap K s len (fst e)"
      using apart that by (cases "LMEM_MMAP_TRESHOLD \<le> len")
        (auto simp: os_keeps_apart_def list_all_iff in_new_heap_def)
    then show "fst e \<noteq> granted K s len"
      using apart that bu by (cases "LMEM_MMAP_TRESHOLD \<le> len")
        (auto simp: os_keeps_apart_def list_all_iff in_new_heap_def unat_gt_0)
  qed
  have old: "hdr s1 (fst e) = hdr s (fst e)" if "e \<in> set M" for e
    using fr [OF e3 [OF that] e1 [OF that]] by simp
  have keep: "mappings_ok (hdr s1) M" using mo by (rule mappings_ok_frame) (simp add: old)
  have offk: "mappings_off_heap (hdr s1) bs1 M"
    using off by (rule mappings_off_heap_frame) (simp add: oh e2)
  show ?thesis
  proof (cases "LMEM_MMAP_TRESHOLD \<le> len \<and> granted K s len \<noteq> MAP_FAILED")
    case True
    note f = mp [OF conjunct1 [OF True]]
    from f True have h: "next_f (hdr s1 (granted K s len)) = LMEM_NEXT_MMAP"
      "size_f (hdr s1 (granted K s len)) = mmap_len len" "q = blk_add (granted K s len) 1"
      and bs1: "bs1 = bs" and o: "os s1 = snd (sys_mmap K (mmap_len len) (os s))" by simp_all
    have a: "alloc_mappings K s len M = with_mapping (granted K s len) (mmap_len len) M"
      using True by (simp add: alloc_mappings_def)
    have 1: "mappings_ok (hdr s1) (alloc_mappings K s len M)"
      unfolding a using mo by (rule mappings_ok_with) (simp_all add: old h)
    have gg: "granted K s len = fst (sys_mmap K (mmap_len len) (os s))"
      using True by (simp add: granted_def)
    from apart True have "off_heap (hdr s) bs (granted K s len)"
      by (simp add: os_keeps_apart_def)
    then have "off_heap (hdr s1) bs1 (granted K s len)"
      using True by (intro oh) (simp_all add: in_new_heap_def)
    with offk have 2: "mappings_off_heap (hdr s1) bs1 (alloc_mappings K s len M)"
      unfolding a by (rule mappings_off_heap_with)
    have 3: "sys_mmap K (mmap_len len) (os s) = (granted K s len, os s1)"
      by (simp add: gg o)
    from ok1 naf1 1 2 have "mappings_inv s1 bs1 (alloc_mappings K s len M)"
      by (simp add: mappings_inv_def)
    with m ap 3 h(3) show ?thesis by blast
  next
    case False
    then have a: "alloc_mappings K s len M = M" by (auto simp: alloc_mappings_def)
    from ok1 naf1 keep offk have "mappings_inv s1 bs1 (alloc_mappings K s len M)"
      by (simp add: mappings_inv_def a)
    with m ap False show ?thesis by blast
  qed
qed

lemma lcalloc_inv:
  assumes inv: "mappings_inv s bs M"
    and fresh: "os_grants_fresh K s bs (n * l)" and apart: "os_keeps_apart K s bs M (n * l)"
    and r: "lcalloc K n l s = Some (q, s')"
  shows "\<exists>bs'. mappings_inv s' bs' (alloc_mappings K s (n * l) M)"
proof -
  from lmalloc_inv [OF inv fresh apart] obtain q1 s1 bs1 where
    m: "lmalloc K (n * l) s = Some (q1, s1)"
    and k: "mappings_inv s1 bs1 (alloc_mappings K s (n * l) M)" by blast
  from r m have h: "hdr s' = hdr s1" "head s' = head s1" "tail s' = tail s1"
    by (auto simp: lcalloc_def Let_def split: if_splits)
  from k have "heap_ok s1 bs1" by (simp add: mappings_inv_def)
  then have "heap_ok s' bs1" by (rule heap_ok_fields) (simp_all add: h)
  with k h(1) have "mappings_inv s' bs1 (alloc_mappings K s (n * l) M)"
    by (simp add: mappings_inv_def)
  then show ?thesis ..
qed

lemma lfree_inv:
  assumes inv: "mappings_inv s bs M" and p: "p = 0 \<or> heap_resident s bs p"
  shows "\<exists>bs'. mappings_inv (lfree K p s) bs' M"
proof (cases "p = 0")
  case True
  with inv have "mappings_inv (lfree K p s) bs M" by (simp add: lfree_def Let_def)
  then show ?thesis ..
next
  case False
  from inv have ok: "heap_ok s bs" and naf: "no_adjacent_free (hdr s) bs"
    and mo: "mappings_ok (hdr s) M" and off: "mappings_off_heap (hdr s) bs M"
    by (simp_all add: mappings_inv_def)
  from False p have b: "blk_sub p 1 \<in> set bs" by (simp add: heap_resident_def)
  then obtain xs ys where bs: "bs = xs @ blk_sub p 1 # ys" by (auto simp: in_set_conv_decomp)
  have pp: "blk_add (blk_sub p 1) 1 = p" by simp
  note c = lfree_coalesces [OF ok [unfolded bs] naf [unfolded bs], of K, unfolded pp]
  note nin = mappings_not_blocks [OF ok off]
  have 1: "mappings_ok (hdr (lfree K p s)) M" using mo
  proof (rule mappings_ok_frame)
    fix e assume "e \<in> set M"
    with nin have "fst e \<notin> set bs" by simp
    with ok naf b show "hdr (lfree K p s) (fst e) = hdr s (fst e)" by (rule lfree_frame)
  qed
  have 2: "mappings_off_heap (hdr (lfree K p s))
             (coalesced_list (hdr s) xs (blk_sub p 1) ys) M"
    using off
  proof (rule mappings_off_heap_frame)
    fix e assume "off_heap (hdr s) bs (fst e)"
    then show "off_heap (hdr (lfree K p s)) (coalesced_list (hdr s) xs (blk_sub p 1) ys) (fst e)"
      using lfree_keeps_off_heap [OF ok [unfolded bs] naf [unfolded bs], of "fst e" K]
      by (simp add: bs)
  qed
  from c(1) c(2) 1 2
  have "mappings_inv (lfree K p s) (coalesced_list (hdr s) xs (blk_sub p 1) ys) M"
    by (simp add: mappings_inv_def)
  then show ?thesis ..
qed

lemma lrealloc_inv:
  assumes inv: "mappings_inv s bs M"
    and fresh: "os_grants_fresh K s bs len" and apart: "os_keeps_apart K s bs M len"
    and p: "p = 0 \<or> heap_resident s bs p"
    and r: "lrealloc K p len s = Some (q, s')"
  shows "\<exists>bs'. mappings_inv s' bs' (alloc_mappings K s len M)"
proof -
  from inv have ok: "heap_ok s bs" by (simp add: mappings_inv_def)
  from lmalloc_inv [OF inv fresh apart] obtain q1 s1 bs1 where
    m: "lmalloc K len s = Some (q1, s1)" and ap: "alloc_post s bs q1 s1 bs1"
    and k: "mappings_inv s1 bs1 (alloc_mappings K s len M)" by blast
  show ?thesis
  proof (cases "p = 0")
    case True
    with r m have "s' = s1" by (simp add: lrealloc_def Let_def)
    with k show ?thesis by blast
  next
    case False
    with p have hr: "heap_resident s bs p" by simp
    note pp = heap_resident_ptr [OF ok hr]
    from ap have sub: "set bs \<subseteq> set bs1"
      and keep: "\<forall>x\<in>set bs. isfree (hdr s x) = 0 \<longrightarrow> isfree (hdr s1 x) = 0"
      by (simp_all add: alloc_post_def)
    from hr sub keep have hr1: "heap_resident s1 bs1 p" by (auto simp: heap_resident_def)
    let ?s2 = "s1\<lparr>bytes := memcpy q1 p len (bytes s1)\<rparr>"
    have e: "lrealloc K p len s = Some (q1, if q1 = 0 then s1 else lfree K p ?s2)"
      using m by (simp add: lrealloc_heap [OF pp])
    from k have "heap_ok s1 bs1" by (simp add: mappings_inv_def)
    then have "heap_ok ?s2 bs1" by (rule heap_ok_fields) simp_all
    with k have k2: "mappings_inv ?s2 bs1 (alloc_mappings K s len M)"
      by (simp add: mappings_inv_def)
    have hr2: "p = 0 \<or> heap_resident ?s2 bs1 p" using hr1 by (simp add: heap_resident_def)
    from lfree_inv [OF k2 hr2, of K] r e k show ?thesis by (cases "q1 = 0") auto
  qed
qed

lemma lfree_mapping:
  assumes inv: "mappings_inv s bs M" and e: "(blk_sub m 1, L) \<in> set M" and m: "m \<noteq> 0"
  shows "lfree K m s = s\<lparr>os := sys_munmap K (blk_sub m 1) L (os s)\<rparr>"
    and "mappings_inv (lfree K m s) bs (without_mapping (blk_sub m 1) M)"
proof -
  from inv have ok: "heap_ok s bs" and naf: "no_adjacent_free (hdr s) bs"
    and mo: "mappings_ok (hdr s) M" and off: "mappings_off_heap (hdr s) bs M"
    by (simp_all add: mappings_inv_def)
  note h = mapping_entry [OF mo e]
  show 1: "lfree K m s = s\<lparr>os := sys_munmap K (blk_sub m 1) L (os s)\<rparr>"
    using m h by (simp add: lfree_def Let_def)
  have 2: "mappings_ok (hdr s) (without_mapping (blk_sub m 1) M)"
    using mo by (rule mappings_ok_without) simp
  have 3: "heap_ok (s\<lparr>os := sys_munmap K (blk_sub m 1) L (os s)\<rparr>) bs"
    using ok by (rule heap_ok_fields) simp_all
  from 2 3 naf mappings_off_heap_without [OF off]
  show "mappings_inv (lfree K m s) bs (without_mapping (blk_sub m 1) M)"
    by (simp add: 1 mappings_inv_def)
qed

lemma lrealloc_mapping:
  assumes inv: "mappings_inv s bs M" and e: "(blk_sub m 1, L) \<in> set M" and m: "m \<noteq> 0"
    and r: "sys_mremap K (blk_sub m 1) L (mmap_len len) (os s) = (nb, o2)"
  shows "nb = MAP_FAILED \<Longrightarrow>
         lrealloc K m len s = Some (0, s\<lparr>os := o2\<rparr>) \<and> mappings_inv (s\<lparr>os := o2\<rparr>) bs M"
    and "nb \<noteq> MAP_FAILED \<Longrightarrow> off_heap (hdr s) bs nb \<Longrightarrow>
         \<exists>s'. lrealloc K m len s = Some (blk_add nb 1, s') \<and> os s' = o2 \<and>
           mappings_inv s' bs (with_mapping nb (mmap_len len) (without_mapping (blk_sub m 1) M))"
proof -
  from inv have ok: "heap_ok s bs" and naf: "no_adjacent_free (hdr s) bs"
    and mo: "mappings_ok (hdr s) M" and off: "mappings_off_heap (hdr s) bs M"
    by (simp_all add: mappings_inv_def)
  note h = mapping_entry [OF mo e]
  show "lrealloc K m len s = Some (0, s\<lparr>os := o2\<rparr>) \<and> mappings_inv (s\<lparr>os := o2\<rparr>) bs M"
    if "nb = MAP_FAILED"
  proof -
    have "heap_ok (s\<lparr>os := o2\<rparr>) bs" using ok by (rule heap_ok_fields) simp_all
    with naf mo off have "mappings_inv (s\<lparr>os := o2\<rparr>) bs M" by (simp add: mappings_inv_def)
    moreover have "lrealloc K m len s = Some (0, s\<lparr>os := o2\<rparr>)"
      using that m h r by (simp add: lrealloc_def Let_def)
    ultimately show ?thesis by simp
  qed
  let ?s' = "st_size nb (mmap_len len)
               (mremap_moved (blk_sub m 1) L nb (mmap_len len) (s\<lparr>os := o2\<rparr>))"
  show "\<exists>s'. lrealloc K m len s = Some (blk_add nb 1, s') \<and> os s' = o2 \<and>
           mappings_inv s' bs (with_mapping nb (mmap_len len) (without_mapping (blk_sub m 1) M))"
    if "nb \<noteq> MAP_FAILED" and o: "off_heap (hdr s) bs nb"
  proof -
    have 1: "lrealloc K m len s = Some (blk_add nb 1, ?s')"
      using that(1) m h r by (simp add: lrealloc_def Let_def)
    have 2: "os ?s' = o2" by (simp add: st_size_def mremap_moved_def)
    have hx: "hdr ?s' x = hdr s x" if "x \<noteq> nb" for x
      using that by (simp add: st_size_def mremap_moved_def)
    have hn: "next_f (hdr ?s' nb) = LMEM_NEXT_MMAP" "size_f (hdr ?s' nb) = mmap_len len"
      using h by (simp_all add: st_size_def mremap_moved_def)
    have nin: "nb \<notin> set bs" using ok o by (rule off_heap_not_block)
    have hc: "hdr ?s' c = hdr s c" if "c \<in> set bs" for c
    proof -
      from that nin have "c \<noteq> nb" by blast
      then show ?thesis by (rule hx)
    qed
    have "mappings_ok (hdr s) (without_mapping (blk_sub m 1) M)"
      using mo by (rule mappings_ok_without) simp
    then have 3: "mappings_ok (hdr ?s')
             (with_mapping nb (mmap_len len) (without_mapping (blk_sub m 1) M))"
      by (rule mappings_ok_with) (simp_all add: hx hn)
    have 4: "heap_ok ?s' bs"
      using ok by (rule heap_ok_fields) (simp_all add: hc, simp_all add: st_size_def mremap_moved_def)
    have 5: "no_adjacent_free (hdr ?s') bs" using naf by (rule naf_cong_list) (simp add: hc)
    have oc: "off_heap (hdr ?s') bs x = off_heap (hdr s) bs x" for x
      by (rule off_heap_cong) (simp add: hc)
    have "mappings_off_heap (hdr s) bs
            (with_mapping nb (mmap_len len) (without_mapping (blk_sub m 1) M))"
      using mappings_off_heap_without [OF off] o by (rule mappings_off_heap_with)
    then have 6: "mappings_off_heap (hdr ?s') bs
            (with_mapping nb (mmap_len len) (without_mapping (blk_sub m 1) M))"
      by (rule mappings_off_heap_frame) (simp add: oc)
    from 3 4 5 6 have "mappings_inv ?s' bs
            (with_mapping nb (mmap_len len) (without_mapping (blk_sub m 1) M))"
      by (simp add: mappings_inv_def)
    with 1 2 show ?thesis by blast
  qed
qed

section \<open>The concrete heap is well formed\<close>

lemma heap4_ok: "heap_ok heap4 [0x10000, 0x10080, 0x101C0, 0x10200]"
  by (simp add: heap_ok_def blist_def heap4_def block_end_def)

lemma heap4_naf: "no_adjacent_free (hdr heap4) [0x10000, 0x10080, 0x101C0, 0x10200]"
  by (simp add: heap4_def)

lemma bu40: "block_units 40 = 3"
  by (simp add: block_units_def sizeof_memblk_def)

lemma heap4_fresh: "os_grants_fresh stub heap4 [0x10000, 0x10080, 0x101C0, 0x10200] 40"
  by (simp add: os_grants_fresh_def LMEM_MMAP_TRESHOLD_def LMEM_PAGESIZE_def bu40 new_memblk_def
      heap4_def stub_def Let_def blk_add_def blk_sub_def sizeof_memblk_def BRK_FAILED_def block_end_def)

lemma heap4_full_ok: "heap_ok heap4_full [0x10000, 0x10080, 0x101C0, 0x10200]"
  using heap4_ok by (rule heap_ok_fields) (simp_all add: heap4_full_def)

lemma bu1000: "block_units 1000 = 33"
  by (simp add: block_units_def sizeof_memblk_def)

lemma heap4_full_brk: "fst (new_memblk stub 33 heap4_full) = BRK_FAILED"
  by (simp add: new_memblk_def heap4_full_def heap4_def stub_def Let_def blk_add_def
      sizeof_memblk_def BRK_FAILED_def)

lemma heap4_full_hdr: "hdr heap4_full = hdr heap4" "head heap4_full = head heap4"
  "tail heap4_full = tail heap4" "bytes heap4_full = bytes heap4"
  by (simp_all add: heap4_full_def)

lemma heap4_no_fit_33:
  "\<not> fits (hdr heap4) 33 0x10000" "\<not> fits (hdr heap4) 33 0x10080"
  "\<not> fits (hdr heap4) 33 0x101C0" "\<not> fits (hdr heap4) 33 0x10200"
  by (simp_all add: fits_def heap4_def)

lemma heap4_lmalloc40:
  "lmalloc stub 40 heap4 = Some (take_block 0x10080 3 heap4)"
proof -
  have "\<not> LMEM_MMAP_TRESHOLD \<le> (40 :: 64 word)"
    by (simp add: LMEM_MMAP_TRESHOLD_def LMEM_PAGESIZE_def)
  from lmalloc_heap_path [OF heap4_ok this, of stub] show ?thesis
    by (simp add: bu40 fits_def heap4_def)
qed

lemma lmem_init_ok: "heap_ok (lmem_init w) []"
  by (simp add: heap_ok_def blist_def lmem_init_def)

lemma bu16: "block_units 16 = 2"
  by (simp add: block_units_def sizeof_memblk_def)

lemma heap4_fresh16: "os_grants_fresh stub heap4 [0x10000, 0x10080, 0x101C0, 0x10200] 16"
  by (simp add: os_grants_fresh_def LMEM_MMAP_TRESHOLD_def LMEM_PAGESIZE_def bu16 new_memblk_def
      heap4_def stub_def Let_def blk_add_def blk_sub_def sizeof_memblk_def BRK_FAILED_def block_end_def)

lemma heap4_resident: "heap_resident heap4 [0x10000, 0x10080, 0x101C0, 0x10200] 0x101E0"
  by (simp add: heap_resident_def blk_sub_def sizeof_memblk_def heap4_def)


lemma heap4_fresh_1_40: "os_grants_fresh stub heap4 [0x10000, 0x10080, 0x101C0, 0x10200] (1 * 40)"
  using heap4_fresh by simp

lemma heap4_mapping_ptr:
  "(0x7f0000000020 :: addr) \<noteq> 0"
  "next_f (hdr heap4 (blk_sub 0x7f0000000020 1)) = LMEM_NEXT_MMAP"
  "fst (sys_mremap stub (blk_sub 0x7f0000000020 1) (size_f (hdr heap4 (blk_sub 0x7f0000000020 1)))
          (mmap_len 40) (os heap4)) \<notin> set [0x10000, 0x10080, 0x101C0, 0x10200]"
  by (simp_all add: blk_sub_def sizeof_memblk_def heap4_def LMEM_NEXT_MMAP_def stub_def
      mmap_len_def LMEM_PAGESIZE_def)

lemma heap4_coalesce:
  "left_free (hdr heap4) [0x10000, 0x10080]" "right_free (hdr heap4) [0x10200]"
  "merged_block (hdr heap4) [0x10000, 0x10080] 0x101C0 = 0x10080"
  "coalesced_list (hdr heap4) [0x10000, 0x10080] 0x101C0 [0x10200] = [0x10000, 0x10080]"
  "coalesced_size (hdr heap4) [0x10000, 0x10080] 0x101C0 [0x10200] = 15"
  by (simp_all add: left_free_def right_free_def merged_block_def coalesced_list_def
      coalesced_size_def heap4_def)

section \<open>First fit: lmalloc below the mapping threshold\<close>

text \<open>
  C1. For a request \<open>len\<close> below the mapping threshold the required size is
  \<open>ceil (len / 32) + 1\<close> header units. When \<open>b\<close> is the first block of the list from
  \<^verbatim>\<open>head\<close> that is free and has at least that many units (no block before it fits;
  whatever follows it, also a tighter fit, plays no role), \<^verbatim>\<open>lmalloc\<close> returns the address
  one header behind \<open>b\<close> and marks \<open>b\<close> in use. It splits \<open>b\<close> exactly when \<open>b\<close> has more
  units than required and otherwise uses the whole block; either way \<open>b\<close> then has
  exactly the required size.
\<close>

theorem lmalloc_first_fit:
  assumes "len < LMEM_MMAP_TRESHOLD"
    and "blist (hdr s) (head s) (xs @ b # ys)"
    and "\<forall>x\<in>set xs. \<not> fits (hdr s) (block_units len) x"
    and "fits (hdr s) (block_units len) b"
  shows "unat (block_units len) = nat \<lceil>real (unat len) / 32\<rceil> + 1 \<and>
         lmalloc K len s =
           Some (blk_add b 1,
                 st_isfree b 0
                   (if block_units len < size_f (hdr s b)
                    then lmem_split_block b (block_units len) s else s)) \<and>
         isfree (hdr (snd (the (lmalloc K len s))) b) = 0 \<and>
         size_f (hdr (snd (the (lmalloc K len s))) b) = block_units len"
proof -
  let ?sz = "block_units len"
  have 1: "unat ?sz = nat \<lceil>real (unat len) / 32\<rceil> + 1"
    using assms(1) by (rule block_units_ceiling(1))
  have "lmalloc_scan K ?sz (head s) s = Some (take_block b ?sz s)"
    using assms(2-4) by (intro lmalloc_scan_first_fit) (auto simp: blist_def)
  moreover have "\<not> LMEM_MMAP_TRESHOLD \<le> len" using assms(1) by simp
  ultimately have 2: "lmalloc K len s = Some (take_block b ?sz s)"
    by (simp add: lmalloc_def)
  have 3: "size_f (hdr (lmem_split_block b ?sz s) b) = ?sz"
    by (simp add: lmem_split_block_def Let_def st_isfree_def st_size_def st_prev_def st_next_def)
  have 4: "size_f (hdr (snd (take_block b ?sz s)) b) = ?sz"
    using assms(4) 3 by (auto simp: take_block_eq st_isfree_def fits_def)
  have 5: "isfree (hdr (snd (take_block b ?sz s)) b) = 0"
    by (simp add: take_block_eq st_isfree_def)
  show ?thesis using 1 2 4 5 by (simp add: take_block_eq)
qed

text \<open>The witness: 40 bytes need 3 units; the block in use at 0x10000 is skipped, the free
  block of 10 units at 0x10080 is taken, although the free block at 0x10200 has exactly
  3 units.\<close>

theorem lmalloc_first_fit_witness:
  "(40 :: 64 word) < LMEM_MMAP_TRESHOLD \<and>
   blist (hdr heap4) (head heap4) ([0x10000] @ 0x10080 # [0x101C0, 0x10200]) \<and>
   \<not> fits (hdr heap4) (block_units 40) 0x10000 \<and>
   fits (hdr heap4) (block_units 40) 0x10080 \<and>
   (unat (block_units 40) = nat \<lceil>real (unat (40 :: 64 word)) / 32\<rceil> + 1 \<and>
    lmalloc stub 40 heap4 =
      Some (blk_add 0x10080 1,
            st_isfree 0x10080 0
              (if block_units 40 < size_f (hdr heap4 0x10080)
               then lmem_split_block 0x10080 (block_units 40) heap4 else heap4)) \<and>
    isfree (hdr (snd (the (lmalloc stub 40 heap4))) 0x10080) = 0 \<and>
    size_f (hdr (snd (the (lmalloc stub 40 heap4))) 0x10080) = block_units 40) \<and>
   block_units 40 = 3 \<and> blk_add 0x10080 1 = 0x100A0 \<and>
   size_f (hdr heap4 0x10080) = 10 \<and>
   fits (hdr heap4) (block_units 40) 0x10200 \<and> size_f (hdr heap4 0x10200) = 3"
proof -
  have h1: "(40 :: 64 word) < LMEM_MMAP_TRESHOLD"
    by (simp add: LMEM_MMAP_TRESHOLD_def LMEM_PAGESIZE_def)
  have h2: "blist (hdr heap4) (head heap4) ([0x10000] @ 0x10080 # [0x101C0, 0x10200])"
    by (simp add: blist_def heap4_def)
  have h3: "\<not> fits (hdr heap4) (block_units 40) 0x10000"
    by (simp add: fits_def heap4_def bu40)
  then have h3': "\<forall>x\<in>set [0x10000]. \<not> fits (hdr heap4) (block_units 40) x"
    by simp
  have h4: "fits (hdr heap4) (block_units 40) 0x10080"
    by (simp add: fits_def heap4_def bu40)
  have h5: "fits (hdr heap4) (block_units 40) 0x10200"
    by (simp add: fits_def heap4_def bu40)
  have h6: "size_f (hdr heap4 0x10080) = 10" "size_f (hdr heap4 0x10200) = 3"
    by (simp_all add: heap4_def)
  have h7: "blk_add 0x10080 1 = 0x100A0" by (simp add: blk_add_def sizeof_memblk_def)
  note t = lmalloc_first_fit [OF h1 h2 h3' h4, of stub]
  show ?thesis using t h1 h2 h3 h4 h5 h6 h7 bu40 by blast
qed

section \<open>Invariant 2 and coalescing on release\<close>

lemma lcalloc_post:
  assumes ok: "heap_ok s bs" and naf: "no_adjacent_free (hdr s) bs"
    and fresh: "os_grants_fresh K s bs (nlen * len)"
  shows "\<exists>q s' bs'. lcalloc K nlen len s = Some (q, s') \<and> heap_ok s' bs' \<and>
           no_adjacent_free (hdr s') bs'"
proof -
  from lmalloc_post [OF ok naf fresh] obtain q s1 bs1 where
    m: "lmalloc K (nlen * len) s = Some (q, s1)" and ap: "alloc_post s bs q s1 bs1" by blast
  from ap have ok1: "heap_ok s1 bs1" and naf1: "no_adjacent_free (hdr s1) bs1"
    by (simp_all add: alloc_post_def)
  let ?s2 = "s1\<lparr>bytes := memset q 0 (nlen * len) (bytes s1)\<rparr>"
  have ok2: "heap_ok ?s2 bs1" using ok1 by (rule heap_ok_fields) simp_all
  have naf2: "no_adjacent_free (hdr ?s2) bs1" using naf1 by simp
  have "lcalloc K nlen len s = Some (q, if q \<noteq> 0 then ?s2 else s1)"
    using m by (simp add: lcalloc_def Let_def)
  with ok1 naf1 ok2 naf2 show ?thesis by (cases "q = 0") auto
qed

lemma lrealloc_null_or_heap_post:
  assumes ok: "heap_ok s bs" and naf: "no_adjacent_free (hdr s) bs"
    and fresh: "os_grants_fresh K s bs len" and p: "p = 0 \<or> heap_resident s bs p"
  shows "\<exists>q s' bs'. lrealloc K p len s = Some (q, s') \<and> heap_ok s' bs' \<and>
           no_adjacent_free (hdr s') bs'"
proof (cases "p = 0")
  case True
  from lmalloc_post [OF ok naf fresh] obtain q s1 bs1 where
    "lmalloc K len s = Some (q, s1)" "alloc_post s bs q s1 bs1" by blast
  with True show ?thesis by (auto simp: lrealloc_def Let_def alloc_post_def)
next
  case False
  with p have hr: "heap_resident s bs p" by simp
  from lrealloc_heap_post [OF ok naf hr fresh] obtain np s1 where
    e: "lrealloc K p len s =
          Some (np, if np = 0 then s1 else lfree K p (s1\<lparr>bytes := memcpy np p len (bytes s)\<rparr>))"
    and h: "\<exists>bs'. heap_ok (snd (the (lrealloc K p len s))) bs' \<and>
                  no_adjacent_free (hdr (snd (the (lrealloc K p len s)))) bs' \<and>
                  (np \<noteq> 0 \<longrightarrow> blk_sub p 1 \<notin> set bs' \<or>
                     isfree (hdr (snd (the (lrealloc K p len s))) (blk_sub p 1)) \<noteq> 0)"
    by blast
  from h obtain bs' where "heap_ok (snd (the (lrealloc K p len s))) bs'"
    "no_adjacent_free (hdr (snd (the (lrealloc K p len s)))) bs'" by blast
  with e show ?thesis by auto
qed

lemma lfree_null_or_heap_post:
  assumes ok: "heap_ok s bs" and naf: "no_adjacent_free (hdr s) bs"
    and p: "p = 0 \<or> heap_resident s bs p"
  shows "\<exists>bs'. heap_ok (lfree K p s) bs' \<and> no_adjacent_free (hdr (lfree K p s)) bs'"
proof (cases "p = 0")
  case True
  with ok naf show ?thesis by (auto simp: lfree_def Let_def)
next
  case False
  with p have "blk_sub p 1 \<in> set bs" by (simp add: heap_resident_def)
  from lfree_post [OF ok naf this, of K] show ?thesis by blast
qed

lemma mapping_ops_post:
  assumes ok: "heap_ok s bs" and naf: "no_adjacent_free (hdr s) bs"
    and p: "p \<noteq> 0" "next_f (hdr s (blk_sub p 1)) = LMEM_NEXT_MMAP"
  shows "heap_ok (lfree K p s) bs \<and> no_adjacent_free (hdr (lfree K p s)) bs"
    and "fst (sys_mremap K (blk_sub p 1) (size_f (hdr s (blk_sub p 1))) (mmap_len len) (os s))
           \<notin> set bs \<Longrightarrow>
         \<exists>q s'. lrealloc K p len s = Some (q, s') \<and> heap_ok s' bs \<and>
           no_adjacent_free (hdr s') bs"
proof -
  have "heap_ok (s\<lparr>os := w\<rparr>) bs" for w
    using ok by (rule heap_ok_fields) simp_all
  then show "heap_ok (lfree K p s) bs \<and> no_adjacent_free (hdr (lfree K p s)) bs"
    using p naf by (simp add: lfree_def Let_def)
next
  let ?r = "sys_mremap K (blk_sub p 1) (size_f (hdr s (blk_sub p 1))) (mmap_len len) (os s)"
  assume nin: "fst ?r \<notin> set bs"
  let ?s1 = "s\<lparr>os := snd ?r\<rparr>"
  let ?s2 = "st_size (fst ?r) (mmap_len len)
               (mremap_moved (blk_sub p 1) (size_f (hdr s (blk_sub p 1))) (fst ?r) (mmap_len len) ?s1)"
  have e: "lrealloc K p len s =
             Some (if fst ?r = MAP_FAILED then (0, ?s1) else (blk_add (fst ?r) 1, ?s2))"
    using p by (simp add: lrealloc_def Let_def split: prod.splits)
  have ok1: "heap_ok ?s1 bs" using ok by (rule heap_ok_fields) simp_all
  have hx: "hdr ?s2 x = hdr s x" if "x \<in> set bs" for x
  proof -
    from that nin have "x \<noteq> fst ?r" by blast
    then show ?thesis by (simp add: st_size_def mremap_moved_def)
  qed
  have ok2: "heap_ok ?s2 bs"
    using ok by (rule heap_ok_fields) (simp_all add: hx, simp_all add: st_size_def mremap_moved_def)
  have naf2: "no_adjacent_free (hdr ?s2) bs"
    using naf by (rule naf_cong_list) (simp add: hx)
  show "\<exists>q s'. lrealloc K p len s = Some (q, s') \<and> heap_ok s' bs \<and>
           no_adjacent_free (hdr s') bs"
    using e ok1 naf ok2 naf2 by (cases "fst ?r = MAP_FAILED") auto
qed

lemma lfree_two_steps:
  assumes ok: "heap_ok s (xs @ b # ys)"
  shows "lfree K (blk_add b 1) s =
           (if next_f (hdr (lfree_left_merge b s) b) \<noteq> 0 \<and>
               isfree (hdr (lfree_left_merge b s) (next_f (hdr (lfree_left_merge b s) b))) \<noteq> 0
            then lfree_left_merge (next_f (hdr (lfree_left_merge b s) b)) (lfree_left_merge b s)
            else lfree_left_merge b s)"
proof -
  have "b \<in> set (xs @ b # ys)" by simp
  note hb = heap_block_facts [OF ok this]
  show ?thesis using hb(1) hb(3) by (rule lfree_block)
qed

text \<open>
  C2. On a well-formed heap where no two neighbours of the list are both free, every public
  operation returns and leaves a well-formed heap with the same property: \<^verbatim>\<open>lmalloc\<close>,
  \<^verbatim>\<open>lcalloc\<close> and \<^verbatim>\<open>lrealloc\<close> when the memory the system hands out is new (\<open>os_grants_fresh\<close>,
  and for a remap: the base returned is not a header of the list), \<^verbatim>\<open>lrealloc\<close> and \<^verbatim>\<open>lfree\<close>
  for a pointer \<open>p\<close> that is \<^verbatim>\<open>NULL\<close> or heap-resident and for a mapping-resident pointer
  \<open>m\<close>. In particular \<^verbatim>\<open>lfree\<close> of the pointer of a block \<open>b\<close> of the list \<open>xs @ b # ys\<close> is
  \<^verbatim>\<open>lfree_left_merge\<close> on \<open>b\<close>, followed by \<^verbatim>\<open>lfree_left_merge\<close> on the block that \<^verbatim>\<open>next\<close> of
  \<open>b\<close> then names when that block is free; afterwards the list is \<open>coalesced_list\<close>, in
  which the freed block, its free left neighbour and its free right neighbour are one
  free block whose size is the sum of theirs.
\<close>

theorem public_operations_keep_no_adjacent_free:
  assumes "heap_ok s bs" and "no_adjacent_free (hdr s) bs"
  shows
   "(os_grants_fresh K s bs len \<longrightarrow>
       (\<exists>q s' bs'. lmalloc K len s = Some (q, s') \<and> heap_ok s' bs' \<and>
          no_adjacent_free (hdr s') bs')) \<and>
    (os_grants_fresh K s bs (nlen * len) \<longrightarrow>
       (\<exists>q s' bs'. lcalloc K nlen len s = Some (q, s') \<and> heap_ok s' bs' \<and>
          no_adjacent_free (hdr s') bs')) \<and>
    (os_grants_fresh K s bs len \<and> (p = 0 \<or> heap_resident s bs p) \<longrightarrow>
       (\<exists>q s' bs'. lrealloc K p len s = Some (q, s') \<and> heap_ok s' bs' \<and>
          no_adjacent_free (hdr s') bs')) \<and>
    (p = 0 \<or> heap_resident s bs p \<longrightarrow>
       (\<exists>bs'. heap_ok (lfree K p s) bs' \<and> no_adjacent_free (hdr (lfree K p s)) bs')) \<and>
    (m \<noteq> 0 \<and> next_f (hdr s (blk_sub m 1)) = LMEM_NEXT_MMAP \<longrightarrow>
       heap_ok (lfree K m s) bs \<and> no_adjacent_free (hdr (lfree K m s)) bs) \<and>
    (m \<noteq> 0 \<and> next_f (hdr s (blk_sub m 1)) = LMEM_NEXT_MMAP \<and>
     fst (sys_mremap K (blk_sub m 1) (size_f (hdr s (blk_sub m 1))) (mmap_len len) (os s))
       \<notin> set bs \<longrightarrow>
       (\<exists>q s'. lrealloc K m len s = Some (q, s') \<and> heap_ok s' bs \<and>
          no_adjacent_free (hdr s') bs)) \<and>
    (bs = xs @ b # ys \<longrightarrow>
       lfree K (blk_add b 1) s =
         (if next_f (hdr (lfree_left_merge b s) b) \<noteq> 0 \<and>
             isfree (hdr (lfree_left_merge b s) (next_f (hdr (lfree_left_merge b s) b))) \<noteq> 0
          then lfree_left_merge (next_f (hdr (lfree_left_merge b s) b)) (lfree_left_merge b s)
          else lfree_left_merge b s) \<and>
       heap_ok (lfree K (blk_add b 1) s) (coalesced_list (hdr s) xs b ys) \<and>
       no_adjacent_free (hdr (lfree K (blk_add b 1) s)) (coalesced_list (hdr s) xs b ys) \<and>
       isfree (hdr (lfree K (blk_add b 1) s) (merged_block (hdr s) xs b)) \<noteq> 0 \<and>
       size_f (hdr (lfree K (blk_add b 1) s) (merged_block (hdr s) xs b)) =
         coalesced_size (hdr s) xs b ys)"
proof -
  note ok = assms(1) and naf = assms(2)
  have 1: "os_grants_fresh K s bs len \<longrightarrow>
       (\<exists>q s' bs'. lmalloc K len s = Some (q, s') \<and> heap_ok s' bs' \<and>
          no_adjacent_free (hdr s') bs')"
    using lmalloc_post [OF ok naf, of K len] unfolding alloc_post_def by blast
  have 2: "os_grants_fresh K s bs (nlen * len) \<longrightarrow>
       (\<exists>q s' bs'. lcalloc K nlen len s = Some (q, s') \<and> heap_ok s' bs' \<and>
          no_adjacent_free (hdr s') bs')"
    using lcalloc_post [OF ok naf] by blast
  have 3: "os_grants_fresh K s bs len \<and> (p = 0 \<or> heap_resident s bs p) \<longrightarrow>
       (\<exists>q s' bs'. lrealloc K p len s = Some (q, s') \<and> heap_ok s' bs' \<and>
          no_adjacent_free (hdr s') bs')"
    using lrealloc_null_or_heap_post [OF ok naf] by blast
  have 4: "p = 0 \<or> heap_resident s bs p \<longrightarrow>
       (\<exists>bs'. heap_ok (lfree K p s) bs' \<and> no_adjacent_free (hdr (lfree K p s)) bs')"
    using lfree_null_or_heap_post [OF ok naf] by blast
  have 5: "m \<noteq> 0 \<and> next_f (hdr s (blk_sub m 1)) = LMEM_NEXT_MMAP \<longrightarrow>
       heap_ok (lfree K m s) bs \<and> no_adjacent_free (hdr (lfree K m s)) bs"
    using mapping_ops_post(1) [OF ok naf] by blast
  have 6: "m \<noteq> 0 \<and> next_f (hdr s (blk_sub m 1)) = LMEM_NEXT_MMAP \<and>
     fst (sys_mremap K (blk_sub m 1) (size_f (hdr s (blk_sub m 1))) (mmap_len len) (os s))
       \<notin> set bs \<longrightarrow>
       (\<exists>q s'. lrealloc K m len s = Some (q, s') \<and> heap_ok s' bs \<and>
          no_adjacent_free (hdr s') bs)"
    using mapping_ops_post(2) [OF ok naf] by blast
  have 7: "bs = xs @ b # ys \<longrightarrow>
       lfree K (blk_add b 1) s =
         (if next_f (hdr (lfree_left_merge b s) b) \<noteq> 0 \<and>
             isfree (hdr (lfree_left_merge b s) (next_f (hdr (lfree_left_merge b s) b))) \<noteq> 0
          then lfree_left_merge (next_f (hdr (lfree_left_merge b s) b)) (lfree_left_merge b s)
          else lfree_left_merge b s) \<and>
       heap_ok (lfree K (blk_add b 1) s) (coalesced_list (hdr s) xs b ys) \<and>
       no_adjacent_free (hdr (lfree K (blk_add b 1) s)) (coalesced_list (hdr s) xs b ys) \<and>
       isfree (hdr (lfree K (blk_add b 1) s) (merged_block (hdr s) xs b)) \<noteq> 0 \<and>
       size_f (hdr (lfree K (blk_add b 1) s) (merged_block (hdr s) xs b)) =
         coalesced_size (hdr s) xs b ys"
  proof
    assume bs: "bs = xs @ b # ys"
    note c = lfree_coalesces [OF ok [unfolded bs] naf [unfolded bs], of K]
    note t = lfree_two_steps [OF ok [unfolded bs], of K]
    from t c(1-4) show "lfree K (blk_add b 1) s =
         (if next_f (hdr (lfree_left_merge b s) b) \<noteq> 0 \<and>
             isfree (hdr (lfree_left_merge b s) (next_f (hdr (lfree_left_merge b s) b))) \<noteq> 0
          then lfree_left_merge (next_f (hdr (lfree_left_merge b s) b)) (lfree_left_merge b s)
          else lfree_left_merge b s) \<and>
       heap_ok (lfree K (blk_add b 1) s) (coalesced_list (hdr s) xs b ys) \<and>
       no_adjacent_free (hdr (lfree K (blk_add b 1) s)) (coalesced_list (hdr s) xs b ys) \<and>
       isfree (hdr (lfree K (blk_add b 1) s) (merged_block (hdr s) xs b)) \<noteq> 0 \<and>
       size_f (hdr (lfree K (blk_add b 1) s) (merged_block (hdr s) xs b)) =
         coalesced_size (hdr s) xs b ys"
      by blast
  qed
  from 1 2 3 4 5 6 7 show ?thesis by blast
qed

text \<open>The witness: on the concrete heap, the block in use at 0x101C0 (pointer 0x101E0) has
  free neighbours on both sides; releasing it leaves the list 0x10000, 0x10080 with a free
  block of 10 + 2 + 3 = 15 units at 0x10080.\<close>

theorem public_operations_keep_no_adjacent_free_witness:
  "heap_ok heap4 [0x10000, 0x10080, 0x101C0, 0x10200] \<and>
   no_adjacent_free (hdr heap4) [0x10000, 0x10080, 0x101C0, 0x10200] \<and>
   os_grants_fresh stub heap4 [0x10000, 0x10080, 0x101C0, 0x10200] 40 \<and>
   os_grants_fresh stub heap4 [0x10000, 0x10080, 0x101C0, 0x10200] (1 * 40) \<and>
   heap_resident heap4 [0x10000, 0x10080, 0x101C0, 0x10200] 0x101E0 \<and>
   (0x7f0000000020 :: addr) \<noteq> 0 \<and>
   next_f (hdr heap4 (blk_sub 0x7f0000000020 1)) = LMEM_NEXT_MMAP \<and>
   fst (sys_mremap stub (blk_sub 0x7f0000000020 1) (size_f (hdr heap4 (blk_sub 0x7f0000000020 1)))
          (mmap_len 40) (os heap4)) \<notin> set [0x10000, 0x10080, 0x101C0, 0x10200] \<and>
   [0x10000, 0x10080, 0x101C0, 0x10200] = [0x10000, 0x10080] @ 0x101C0 # [0x10200 :: addr] \<and>
   (\<exists>q s' bs'. lmalloc stub 40 heap4 = Some (q, s') \<and> heap_ok s' bs' \<and>
      no_adjacent_free (hdr s') bs') \<and>
   (\<exists>q s' bs'. lcalloc stub 1 40 heap4 = Some (q, s') \<and> heap_ok s' bs' \<and>
      no_adjacent_free (hdr s') bs') \<and>
   (\<exists>q s' bs'. lrealloc stub 0x101E0 40 heap4 = Some (q, s') \<and> heap_ok s' bs' \<and>
      no_adjacent_free (hdr s') bs') \<and>
   (\<exists>bs'. heap_ok (lfree stub 0x101E0 heap4) bs' \<and>
      no_adjacent_free (hdr (lfree stub 0x101E0 heap4)) bs') \<and>
   heap_ok (lfree stub 0x7f0000000020 heap4) [0x10000, 0x10080, 0x101C0, 0x10200] \<and>
   no_adjacent_free (hdr (lfree stub 0x7f0000000020 heap4)) [0x10000, 0x10080, 0x101C0, 0x10200] \<and>
   (\<exists>q s'. lrealloc stub 0x7f0000000020 40 heap4 = Some (q, s') \<and>
      heap_ok s' [0x10000, 0x10080, 0x101C0, 0x10200] \<and>
      no_adjacent_free (hdr s') [0x10000, 0x10080, 0x101C0, 0x10200]) \<and>
   left_free (hdr heap4) [0x10000, 0x10080] \<and> right_free (hdr heap4) [0x10200] \<and>
   merged_block (hdr heap4) [0x10000, 0x10080] 0x101C0 = 0x10080 \<and>
   coalesced_list (hdr heap4) [0x10000, 0x10080] 0x101C0 [0x10200] = [0x10000, 0x10080] \<and>
   coalesced_size (hdr heap4) [0x10000, 0x10080] 0x101C0 [0x10200] = 15 \<and>
   heap_ok (lfree stub (blk_add 0x101C0 1) heap4)
     (coalesced_list (hdr heap4) [0x10000, 0x10080] 0x101C0 [0x10200]) \<and>
   no_adjacent_free (hdr (lfree stub (blk_add 0x101C0 1) heap4))
     (coalesced_list (hdr heap4) [0x10000, 0x10080] 0x101C0 [0x10200]) \<and>
   isfree (hdr (lfree stub (blk_add 0x101C0 1) heap4)
             (merged_block (hdr heap4) [0x10000, 0x10080] 0x101C0)) \<noteq> 0 \<and>
   size_f (hdr (lfree stub (blk_add 0x101C0 1) heap4)
             (merged_block (hdr heap4) [0x10000, 0x10080] 0x101C0)) =
     coalesced_size (hdr heap4) [0x10000, 0x10080] 0x101C0 [0x10200]"
proof -
  have l: "[0x10000, 0x10080, 0x101C0, 0x10200] = [0x10000, 0x10080] @ 0x101C0 # [0x10200 :: addr]"
    by simp
  have r: "(0x101E0 :: addr) = 0 \<or> heap_resident heap4 [0x10000, 0x10080, 0x101C0, 0x10200] 0x101E0"
    using heap4_resident by simp
  note t = public_operations_keep_no_adjacent_free [OF heap4_ok heap4_naf,
      of stub 40 1 "0x101E0" "0x7f0000000020" "[0x10000, 0x10080]" "0x101C0" "[0x10200]"]
  show ?thesis
    using t heap4_ok heap4_naf heap4_fresh heap4_fresh_1_40 heap4_resident r heap4_mapping_ptr l
      heap4_coalesce
    by blast
qed

section \<open>Resizing a heap block: lrealloc\<close>




section \<open>The cached break after a failure\<close>

text \<open>
  C4. The claim: when the heap-break call fails, \<^verbatim>\<open>new_memblk\<close> returns the failure value
  and leaves the cached break \<^verbatim>\<open>last_break\<close> as it was. The code assigns the result of
  \<^verbatim>\<open>_brk\<close> to \<^verbatim>\<open>last_break\<close> before it tests it, so after a failure the cache holds
  the failure value -1, not the break. Here the cache holds the break 0x10000, the system
  refuses to move it, and \<^verbatim>\<open>new_memblk (2)\<close> returns -1 with \<^verbatim>\<open>last_break\<close> overwritten by
  -1, while the break of the system is still 0x10000.
\<close>

theorem new_memblk_failure_overwrites_last_break:
  "new_memblk stub 2 ((lmem_init stub_os_full)\<lparr>last_break := 0x10000\<rparr>) =
     (BRK_FAILED, (lmem_init stub_os_full)\<lparr>last_break := BRK_FAILED\<rparr>) \<and>
   last_break ((lmem_init stub_os_full)\<lparr>last_break := 0x10000\<rparr>) = 0x10000 \<and>
   BRK_FAILED \<noteq> (0x10000 :: addr) \<and>
   cur_brk (os (snd (new_memblk stub 2 ((lmem_init stub_os_full)\<lparr>last_break := 0x10000\<rparr>)))) = 0x10000"
  by (simp add: new_memblk_def stub_def stub_os_full_def lmem_init_def BRK_FAILED_def
      blk_add_def blk_sub_def sizeof_memblk_def Let_def)

section \<open>Large requests: the mapping path of lmalloc\<close>

lemma mmap_len_aligned: "mmap_len len AND (LMEM_PAGESIZE - 1) = 0"
  by (simp add: mmap_len_def LMEM_PAGESIZE_def and.assoc)

lemma page_round_up_ge: "n \<le> page_round_up n"
  by (simp add: page_round_up_def)

lemma page_round_up_least:
  "page_round_up n mod 4096 = 0 \<and> page_round_up n < n + 4096"
  by (simp add: page_round_up_def)

text \<open>
  C5, as amended. The threshold is 16 pages of 4096 bytes. For a request \<open>len\<close> at or above
  it whose header-inclusive length rounded up to pages fits in 64 bits (\<open>len + 4127 < 2^64\<close>),
  \<^verbatim>\<open>lmalloc\<close> asks \<^verbatim>\<open>mmap\<close> for exactly the length \<open>len + 32\<close> rounded up to a multiple of
  4096. When the call fails it returns \<^verbatim>\<open>NULL\<close>. When it succeeds with base \<open>blk\<close>, it stores
  the sentinel in \<^verbatim>\<open>next\<close> and the rounded length in \<^verbatim>\<open>size\<close> of the header at \<open>blk\<close>, and
  returns the address one header behind \<open>blk\<close>; no other header changes. In both outcomes
  \<^verbatim>\<open>head\<close> and \<^verbatim>\<open>tail\<close> are unchanged, and a well-formed heap none of whose headers is at
  \<open>blk\<close> is well formed with the same block list afterwards.
\<close>

theorem lmalloc_mapping_path:
  assumes "LMEM_MMAP_TRESHOLD \<le> len" and "unat len + 4127 < 2 ^ 64"
    and "sys_mmap K (mmap_len len) (os s) = (blk, o1)"
  shows "unat LMEM_MMAP_TRESHOLD = 16 * 4096 \<and>
         unat (mmap_len len) = page_round_up (unat len + 32) \<and>
         (if blk = MAP_FAILED then lmalloc K len s = Some (0, s\<lparr>os := o1\<rparr>)
          else lmalloc K len s =
                 Some (blk_add blk 1,
                       st_size blk (mmap_len len) (st_next blk LMEM_NEXT_MMAP (s\<lparr>os := o1\<rparr>))) \<and>
               next_f (hdr (snd (the (lmalloc K len s))) blk) = LMEM_NEXT_MMAP \<and>
               size_f (hdr (snd (the (lmalloc K len s))) blk) = mmap_len len \<and>
               (\<forall>a. a \<noteq> blk \<longrightarrow> hdr (snd (the (lmalloc K len s))) a = hdr s a)) \<and>
         head (snd (the (lmalloc K len s))) = head s \<and>
         tail (snd (the (lmalloc K len s))) = tail s \<and>
         (\<forall>bs. heap_ok s bs \<and> blk \<notin> set bs \<longrightarrow> heap_ok (snd (the (lmalloc K len s))) bs)"
proof -
  let ?s1 = "s\<lparr>os := o1\<rparr>"
  let ?s2 = "st_size blk (mmap_len len) (st_next blk LMEM_NEXT_MMAP ?s1)"
  have t: "unat LMEM_MMAP_TRESHOLD = 16 * 4096"
    by (simp add: LMEM_MMAP_TRESHOLD_def LMEM_PAGESIZE_def)
  have r: "unat (mmap_len len) = page_round_up (unat len + 32)"
    using assms(2) by (rule mmap_len_rounds)
  have e: "lmalloc K len s = Some (if blk = MAP_FAILED then (0, ?s1) else (blk_add blk 1, ?s2))"
    using assms(1,3) by (simp add: lmalloc_mmap_path Let_def)
  have ok1: "heap_ok ?s1 bs" if "heap_ok s bs" for bs
    using that by (rule heap_ok_fields) simp_all
  have ok2: "heap_ok ?s2 bs" if "heap_ok s bs" "blk \<notin> set bs" for bs
  proof -
    have "hdr ?s2 x = hdr s x" if "x \<in> set bs" for x
    proof -
      from that \<open>blk \<notin> set bs\<close> have "x \<noteq> blk" by blast
      then show ?thesis by (simp add: st_size_def st_next_def)
    qed
    with \<open>heap_ok s bs\<close> show ?thesis
      by (elim heap_ok_fields) (simp_all add: st_size_def st_next_def)
  qed
  show ?thesis
  proof (cases "blk = MAP_FAILED")
    case True
    with t r e ok1 show ?thesis by simp
  next
    case False
    with t r e ok2 show ?thesis by (simp add: st_size_def st_next_def)
  qed
qed

theorem lmalloc_mapping_path_witness:
  "LMEM_MMAP_TRESHOLD \<le> (70000 :: 64 word) \<and>
   unat (70000 :: 64 word) + 4127 < 2 ^ 64 \<and>
   sys_mmap stub (mmap_len 70000) (os (lmem_init stub_os0)) =
     (0x7f0000000000, stub_os0\<lparr>next_map := 0x7f0000012000, maps_left := 3\<rparr>) \<and>
   mmap_len 70000 = 0x12000 \<and> 0x7f0000000000 \<noteq> MAP_FAILED \<and>
   blk_add 0x7f0000000000 1 = 0x7f0000000020 \<and>
   unat (mmap_len 70000) = page_round_up (unat (70000 :: 64 word) + 32) \<and>
   lmalloc stub 70000 (lmem_init stub_os0) =
     Some (blk_add 0x7f0000000000 1,
           st_size 0x7f0000000000 (mmap_len 70000)
             (st_next 0x7f0000000000 LMEM_NEXT_MMAP
                ((lmem_init stub_os0)\<lparr>os := stub_os0\<lparr>next_map := 0x7f0000012000, maps_left := 3\<rparr>\<rparr>))) \<and>
   next_f (hdr (snd (the (lmalloc stub 70000 (lmem_init stub_os0)))) 0x7f0000000000) = LMEM_NEXT_MMAP \<and>
   size_f (hdr (snd (the (lmalloc stub 70000 (lmem_init stub_os0)))) 0x7f0000000000) = mmap_len 70000 \<and>
   head (snd (the (lmalloc stub 70000 (lmem_init stub_os0)))) = head (lmem_init stub_os0) \<and>
   tail (snd (the (lmalloc stub 70000 (lmem_init stub_os0)))) = tail (lmem_init stub_os0) \<and>
   heap_ok (lmem_init stub_os0) [] \<and>
   heap_ok (snd (the (lmalloc stub 70000 (lmem_init stub_os0)))) []"
proof -
  have h1: "LMEM_MMAP_TRESHOLD \<le> (70000 :: 64 word)"
    by (simp add: LMEM_MMAP_TRESHOLD_def LMEM_PAGESIZE_def)
  have h2: "unat (70000 :: 64 word) + 4127 < 2 ^ 64" by simp
  have l: "mmap_len 70000 = 0x12000"
    by (simp add: mmap_len_def sizeof_memblk_def LMEM_PAGESIZE_def)
  have h3: "sys_mmap stub (mmap_len 70000) (os (lmem_init stub_os0)) =
     (0x7f0000000000, stub_os0\<lparr>next_map := 0x7f0000012000, maps_left := 3\<rparr>)"
    by (simp add: l stub_def lmem_init_def stub_os0_def)
  have n: "0x7f0000000000 \<noteq> MAP_FAILED" by (simp add: MAP_FAILED_def)
  have a: "blk_add 0x7f0000000000 1 = 0x7f0000000020" by (simp add: blk_add_def sizeof_memblk_def)
  have nn: "(0x7f0000000000 = MAP_FAILED) = False" using n by simp
  note t = lmalloc_mapping_path [OF h1 h2 h3, unfolded nn if_False]
  have ok: "heap_ok (lmem_init stub_os0) []" by (rule lmem_init_ok)
  have e: "0x7f0000000000 \<notin> set ([] :: addr list)" by simp
  show ?thesis using t n h1 h2 h3 l a ok e by blast
qed

text \<open>
  The claim as stated is for every \<open>len\<close> at or above the threshold. The sum
  \<open>len + 32 + 4095\<close> is computed in 64 bits with no check: for \<open>len = 2^64 - 1\<close> it wraps
  around, the length passed to \<^verbatim>\<open>mmap\<close> and stored in the header is 4096, not the rounded
  header-inclusive length \<open>2^64 + 4096\<close>, and the pointer returned has 4064 usable bytes.
\<close>

theorem lmalloc_mapping_length_wraps_counterexample:
  "LMEM_MMAP_TRESHOLD \<le> (- 1 :: 64 word) \<and>
   unat (- 1 :: 64 word) = 2 ^ 64 - 1 \<and>
   mmap_len (- 1) = 4096 \<and>
   page_round_up (unat (- 1 :: 64 word) + 32) = 2 ^ 64 + 4096 \<and>
   unat (mmap_len (- 1)) \<noteq> page_round_up (unat (- 1 :: 64 word) + 32) \<and>
   lmalloc stub (- 1) (lmem_init stub_os0) =
     Some (0x7f0000000020,
           st_size 0x7f0000000000 4096
             (st_next 0x7f0000000000 LMEM_NEXT_MMAP
                ((lmem_init stub_os0)\<lparr>os := stub_os0\<lparr>next_map := 0x7f0000001000, maps_left := 3\<rparr>\<rparr>)))"
proof -
  have h1: "LMEM_MMAP_TRESHOLD \<le> (- 1 :: 64 word)" by simp
  have u: "unat (- 1 :: 64 word) = 2 ^ 64 - 1"
    by (simp add: unsigned_minus_1_eq_mask mask_eq_exp_minus_1)
  have l: "mmap_len (- 1) = 4096"
    by (simp add: mmap_len_def sizeof_memblk_def LMEM_PAGESIZE_def)
  have p: "page_round_up (unat (- 1 :: 64 word) + 32) = 2 ^ 64 + 4096"
    by (simp add: u page_round_up_def)
  have m: "lmalloc stub (- 1) (lmem_init stub_os0) =
     Some (0x7f0000000020,
           st_size 0x7f0000000000 4096
             (st_next 0x7f0000000000 LMEM_NEXT_MMAP
                ((lmem_init stub_os0)\<lparr>os := stub_os0\<lparr>next_map := 0x7f0000001000, maps_left := 3\<rparr>\<rparr>)))"
    by (simp add: lmalloc_mmap_path [OF h1] l Let_def stub_def lmem_init_def stub_os0_def
        MAP_FAILED_def blk_add_def sizeof_memblk_def)
  show ?thesis using h1 u l p m by simp
qed

section \<open>Splitting a block: lmem_split_block\<close>

text \<open>
  C6, as amended. For a block \<open>b\<close> of a well-formed heap and a size \<open>sz\<close> with
  \<open>0 < sz < size b\<close>, \<^verbatim>\<open>lmem_split_block\<close> leaves \<open>b\<close> with exactly \<open>sz\<close> units and its
  \<^verbatim>\<open>isfree\<close> flag unchanged, creates a free block of the remaining \<open>size b - sz\<close> units at
  the address where the shrunk block ends, links it between \<open>b\<close> and the former successor
  of \<open>b\<close> (\<^verbatim>\<open>tail\<close> becomes the new block when \<open>b\<close> was last), and the heap is well formed
  again, with the new block in the list right after \<open>b\<close>: invariant 1 is preserved.
\<close>

theorem lmem_split_block_relinks:
  assumes "heap_ok s (xs @ b # ys)" and "sz \<noteq> 0" and "sz < size_f (hdr s b)"
  shows "size_f (hdr (lmem_split_block b sz s) b) = sz \<and>
         isfree (hdr (lmem_split_block b sz s) b) = isfree (hdr s b) \<and>
         isfree (hdr (lmem_split_block b sz s) (blk_add b sz)) = 1 \<and>
         size_f (hdr (lmem_split_block b sz s) (blk_add b sz)) = size_f (hdr s b) - sz \<and>
         unat (size_f (hdr s b) - sz) = unat (size_f (hdr s b)) - unat sz \<and>
         unat (blk_add b sz) = unat b + 32 * unat sz \<and>
         next_f (hdr (lmem_split_block b sz s) b) = blk_add b sz \<and>
         prev_f (hdr (lmem_split_block b sz s) (blk_add b sz)) = b \<and>
         next_f (hdr (lmem_split_block b sz s) (blk_add b sz)) = next_f (hdr s b) \<and>
         (if next_f (hdr s b) = 0 then tail (lmem_split_block b sz s) = blk_add b sz
          else prev_f (hdr (lmem_split_block b sz s) (next_f (hdr s b))) = blk_add b sz \<and>
               tail (lmem_split_block b sz s) = tail s) \<and>
         head (lmem_split_block b sz s) = head s \<and>
         heap_ok (lmem_split_block b sz s) (xs @ b # blk_add b sz # ys)"
proof -
  note f = split_facts [OF assms] and e = split_hdr [OF assms]
  have n0: "(next_f (hdr s b) = 0) = (ys = [])"
    using f(9) heap_ok_head_tail(3) [OF assms(1)] by (cases ys) auto
  have 1: "hdr (lmem_split_block b sz s) b = (hdr s b)\<lparr>size_f := sz, next_f := blk_add b sz\<rparr>"
    using f(2) f(10) by (simp add: e(1) Let_def)
  have 2: "hdr (lmem_split_block b sz s) (blk_add b sz) =
             \<lparr>isfree = 1, size_f = size_f (hdr s b) - sz, prev_f = b, next_f = next_f (hdr s b)\<rparr>"
    using f(2) f(11) by (simp add: e(1) Let_def)
  have 3: "next_f (hdr s b) \<noteq> 0 \<Longrightarrow>
             prev_f (hdr (lmem_split_block b sz s) (next_f (hdr s b))) = blk_add b sz"
    by (simp add: e(1) Let_def)
  have 4: "heap_ok (lmem_split_block b sz s) (xs @ b # blk_add b sz # ys)"
    using assms by (rule split_heap_ok)
  show ?thesis using 1 2 3 4 f(1) f(13) n0 by (simp add: e(2) e(3))
qed

theorem lmem_split_block_relinks_witness:
  "heap_ok heap4 ([0x10000] @ 0x10080 # [0x101C0, 0x10200]) \<and>
   (3 :: 64 word) \<noteq> 0 \<and> 3 < size_f (hdr heap4 0x10080) \<and>
   size_f (hdr heap4 0x10080) = 10 \<and> isfree (hdr heap4 0x10080) = 1 \<and>
   blk_add 0x10080 3 = 0x100E0 \<and> next_f (hdr heap4 0x10080) = 0x101C0 \<and>
   size_f (hdr (lmem_split_block 0x10080 3 heap4) 0x10080) = 3 \<and>
   isfree (hdr (lmem_split_block 0x10080 3 heap4) 0x10080) = 1 \<and>
   isfree (hdr (lmem_split_block 0x10080 3 heap4) 0x100E0) = 1 \<and>
   size_f (hdr (lmem_split_block 0x10080 3 heap4) 0x100E0) = 7 \<and>
   next_f (hdr (lmem_split_block 0x10080 3 heap4) 0x10080) = 0x100E0 \<and>
   prev_f (hdr (lmem_split_block 0x10080 3 heap4) 0x100E0) = 0x10080 \<and>
   next_f (hdr (lmem_split_block 0x10080 3 heap4) 0x100E0) = 0x101C0 \<and>
   prev_f (hdr (lmem_split_block 0x10080 3 heap4) 0x101C0) = 0x100E0 \<and>
   tail (lmem_split_block 0x10080 3 heap4) = 0x10200 \<and>
   heap_ok (lmem_split_block 0x10080 3 heap4) ([0x10000] @ 0x10080 # 0x100E0 # [0x101C0, 0x10200])"
proof -
  have h1: "heap_ok heap4 ([0x10000] @ 0x10080 # [0x101C0, 0x10200])"
    using heap4_ok by simp
  have h2: "(3 :: 64 word) \<noteq> 0" by simp
  have h3: "3 < size_f (hdr heap4 0x10080)" by (simp add: heap4_def)
  have v: "size_f (hdr heap4 0x10080) = 10" "isfree (hdr heap4 0x10080) = 1"
    "blk_add 0x10080 3 = 0x100E0" "next_f (hdr heap4 0x10080) = 0x101C0" "tail heap4 = 0x10200"
    by (simp_all add: heap4_def blk_add_def sizeof_memblk_def)
  note t = lmem_split_block_relinks [OF h1 h2 h3]
  show ?thesis using t h1 h2 h3 by (simp add: v)
qed

text \<open>
  The claim as stated asks only for \<open>sz < size b\<close>. With \<open>sz = 0\<close> the upper block is \<open>b\<close>
  itself: here \<open>b\<close> is the block in use of 2 units at 0x101C0, and after the call its
  \<^verbatim>\<open>isfree\<close> flag is 1, the header at the place of the new block has size 0 and not 2,
  and \<^verbatim>\<open>next\<close> of \<open>b\<close> is \<open>b\<close>.
\<close>

lemma lmem_split_block_zero:
  "isfree (hdr (lmem_split_block b 0 s) b) = 1 \<and> size_f (hdr (lmem_split_block b 0 s) b) = 0 \<and>
   next_f (hdr (lmem_split_block b 0 s) b) = b"
  by (simp add: lmem_split_block_def Let_def blk_add_def st_isfree_def st_size_def st_prev_def
      st_next_def)

theorem lmem_split_block_zero_size_counterexample:
  "heap_ok heap4 ([0x10000, 0x10080] @ 0x101C0 # [0x10200]) \<and>
   (0 :: 64 word) < size_f (hdr heap4 0x101C0) \<and>
   isfree (hdr heap4 0x101C0) = 0 \<and>
   isfree (hdr (lmem_split_block 0x101C0 0 heap4) 0x101C0) = 1 \<and>
   blk_add 0x101C0 0 = 0x101C0 \<and>
   size_f (hdr heap4 0x101C0) - 0 = 2 \<and>
   size_f (hdr (lmem_split_block 0x101C0 0 heap4) (blk_add 0x101C0 0)) = 0 \<and>
   next_f (hdr (lmem_split_block 0x101C0 0 heap4) 0x101C0) = 0x101C0"
proof -
  have "isfree (hdr heap4 0x101C0) = 0" "size_f (hdr heap4 0x101C0) = 2"
    by (simp_all add: heap4_def)
  moreover have "blk_add 0x101C0 0 = 0x101C0" by (simp add: blk_add_def)
  ultimately show ?thesis
    using heap4_ok lmem_split_block_zero [of "0x101C0" heap4] by simp
qed

section \<open>Exhaustion: heap growth fails\<close>

text \<open>
  C7. When no block of the list fits a request below the threshold and \<^verbatim>\<open>new_memblk\<close>
  fails, \<^verbatim>\<open>lmalloc\<close> returns \<^verbatim>\<open>NULL\<close>; \<^verbatim>\<open>head\<close>, \<^verbatim>\<open>tail\<close> and every header (all four
  fields, at every address) are as before the call, so the heap is well formed with the same
  block list and invariant 1 still holds. What changes is outside the list: the state
  of the system and the cached break (see C4).
\<close>

theorem lmalloc_exhaustion_keeps_list:
  assumes "len < LMEM_MMAP_TRESHOLD" and "heap_ok s bs"
    and "\<forall>x\<in>set bs. \<not> fits (hdr s) (block_units len) x"
    and "fst (new_memblk K (block_units len) s) = BRK_FAILED"
  shows "lmalloc K len s = Some (0, snd (new_memblk K (block_units len) s)) \<and>
         head (snd (the (lmalloc K len s))) = head s \<and>
         tail (snd (the (lmalloc K len s))) = tail s \<and>
         hdr (snd (the (lmalloc K len s))) = hdr s \<and>
         bytes (snd (the (lmalloc K len s))) = bytes s \<and>
         heap_ok (snd (the (lmalloc K len s))) bs"
proof -
  let ?sz = "block_units len"
  have small: "\<not> LMEM_MMAP_TRESHOLD \<le> len" using assms(1) by simp
  have "find (fits (hdr s) ?sz) bs = None" using assms(3) by (simp add: find_None_iff)
  then have "lmalloc K len s = Some (lmalloc_new_block K ?sz s)"
    using lmalloc_heap_path [OF assms(2) small, of K] by simp
  then have e: "lmalloc K len s = Some (0, snd (new_memblk K ?sz s))"
    using assms(4) by (simp add: lmalloc_new_block_fail)
  note fr = new_memblk_frame [of K ?sz s]
  have "heap_ok (snd (new_memblk K ?sz s)) bs"
    using assms(2) by (rule heap_ok_fields) (simp_all add: fr)
  with e fr show ?thesis by simp
qed

text \<open>The witness: 1000 bytes need 33 units, no block of the heap has that many, and the
  break cannot move.\<close>

theorem lmalloc_exhaustion_keeps_list_witness:
  "(1000 :: 64 word) < LMEM_MMAP_TRESHOLD \<and>
   heap_ok heap4_full [0x10000, 0x10080, 0x101C0, 0x10200] \<and>
   \<not> fits (hdr heap4_full) (block_units 1000) 0x10000 \<and>
   \<not> fits (hdr heap4_full) (block_units 1000) 0x10080 \<and>
   \<not> fits (hdr heap4_full) (block_units 1000) 0x101C0 \<and>
   \<not> fits (hdr heap4_full) (block_units 1000) 0x10200 \<and>
   fst (new_memblk stub (block_units 1000) heap4_full) = BRK_FAILED \<and>
   (lmalloc stub 1000 heap4_full = Some (0, snd (new_memblk stub (block_units 1000) heap4_full)) \<and>
    head (snd (the (lmalloc stub 1000 heap4_full))) = head heap4_full \<and>
    tail (snd (the (lmalloc stub 1000 heap4_full))) = tail heap4_full \<and>
    hdr (snd (the (lmalloc stub 1000 heap4_full))) = hdr heap4_full \<and>
    bytes (snd (the (lmalloc stub 1000 heap4_full))) = bytes heap4_full \<and>
    heap_ok (snd (the (lmalloc stub 1000 heap4_full))) [0x10000, 0x10080, 0x101C0, 0x10200])"
proof -
  have h1: "(1000 :: 64 word) < LMEM_MMAP_TRESHOLD"
    by (simp add: LMEM_MMAP_TRESHOLD_def LMEM_PAGESIZE_def)
  note h2 = heap4_full_ok
  have n: "\<not> fits (hdr heap4_full) (block_units 1000) 0x10000"
    "\<not> fits (hdr heap4_full) (block_units 1000) 0x10080"
    "\<not> fits (hdr heap4_full) (block_units 1000) 0x101C0"
    "\<not> fits (hdr heap4_full) (block_units 1000) 0x10200"
    using heap4_no_fit_33 by (simp_all add: heap4_full_hdr bu1000)
  then have h3: "\<forall>x\<in>set [0x10000, 0x10080, 0x101C0, 0x10200].
      \<not> fits (hdr heap4_full) (block_units 1000) x" by simp
  have h4: "fst (new_memblk stub (block_units 1000) heap4_full) = BRK_FAILED"
    using heap4_full_brk by (simp add: bu1000)
  note t = lmalloc_exhaustion_keeps_list [OF h1 h2 h3 h4]
  show ?thesis using t h1 h2 n h4 by blast
qed

section \<open>Zero-filled allocation: lcalloc\<close>

text \<open>
  C8, as amended. \<^verbatim>\<open>lcalloc (nlen, len)\<close> multiplies the two counts as 64-bit words, with no
  check (the product wraps around), and calls \<^verbatim>\<open>lmalloc\<close> with the product. On a well-formed
  heap, for a product with \<open>nlen * len + 4127 < 2^64\<close>, \<^verbatim>\<open>lmalloc\<close> returns. When it
  returns \<^verbatim>\<open>NULL\<close>, \<^verbatim>\<open>lcalloc\<close> returns \<^verbatim>\<open>NULL\<close> in the state \<^verbatim>\<open>lmalloc\<close> left: it has written
  nothing. When it returns a pointer \<open>q\<close>, the block behind \<open>q\<close> has room for the product
  many bytes, so the fill stays inside the block: \<^verbatim>\<open>lcalloc\<close> returns \<open>q\<close>, every one of the
  product many bytes from \<open>q\<close> reads as zero, and the headers, \<^verbatim>\<open>head\<close> and \<^verbatim>\<open>tail\<close> are as
  \<^verbatim>\<open>lmalloc\<close> left them.
\<close>

theorem lcalloc_zero_fills:
  assumes "heap_ok s bs" and "os_grants_fresh K s bs (nlen * len)"
    and "unat (nlen * len) + 4127 < 2 ^ 64"
  shows "\<exists>q s1. lmalloc K (nlen * len) s = Some (q, s1) \<and>
           (q = 0 \<longrightarrow> lcalloc K nlen len s = Some (0, s1)) \<and>
           (q \<noteq> 0 \<longrightarrow>
              unat (nlen * len) \<le> usable_size (hdr s1) (blk_sub q 1) \<and>
              (\<exists>s'. lcalloc K nlen len s = Some (q, s') \<and>
                 (\<forall>i. i < nlen * len \<longrightarrow> bytes s' (q + i) = 0) \<and>
                 hdr s' = hdr s1 \<and> head s' = head s1 \<and> tail s' = tail s1 \<and>
                 last_break s' = last_break s1 \<and> os s' = os s1))"
proof -
  from lmalloc_room [OF assms] obtain q s1 where
    m: "lmalloc K (nlen * len) s = Some (q, s1)"
    and room: "q \<noteq> 0 \<longrightarrow> unat (nlen * len) \<le> usable_size (hdr s1) (blk_sub q 1)" by blast
  let ?s' = "s1\<lparr>bytes := memset q 0 (nlen * len) (bytes s1)\<rparr>"
  have e: "lcalloc K nlen len s = Some (q, if q \<noteq> 0 then ?s' else s1)"
    using m by (simp add: lcalloc_def Let_def)
  have 1: "q = 0 \<longrightarrow> lcalloc K nlen len s = Some (0, s1)" by (simp add: e)
  have 2: "q \<noteq> 0 \<longrightarrow>
              unat (nlen * len) \<le> usable_size (hdr s1) (blk_sub q 1) \<and>
              (\<exists>s'. lcalloc K nlen len s = Some (q, s') \<and>
                 (\<forall>i. i < nlen * len \<longrightarrow> bytes s' (q + i) = 0) \<and>
                 hdr s' = hdr s1 \<and> head s' = head s1 \<and> tail s' = tail s1 \<and>
                 last_break s' = last_break s1 \<and> os s' = os s1)"
  proof
    assume q: "q \<noteq> 0"
    have "lcalloc K nlen len s = Some (q, ?s') \<and>
                 (\<forall>i. i < nlen * len \<longrightarrow> bytes ?s' (q + i) = 0) \<and>
                 hdr ?s' = hdr s1 \<and> head ?s' = head s1 \<and> tail ?s' = tail s1 \<and>
                 last_break ?s' = last_break s1 \<and> os ?s' = os s1"
      using q by (simp add: e memset_inside)
    then have "\<exists>s'. lcalloc K nlen len s = Some (q, s') \<and>
                 (\<forall>i. i < nlen * len \<longrightarrow> bytes s' (q + i) = 0) \<and>
                 hdr s' = hdr s1 \<and> head s' = head s1 \<and> tail s' = tail s1 \<and>
                 last_break s' = last_break s1 \<and> os s' = os s1" by blast
    with q room show "unat (nlen * len) \<le> usable_size (hdr s1) (blk_sub q 1) \<and>
              (\<exists>s'. lcalloc K nlen len s = Some (q, s') \<and>
                 (\<forall>i. i < nlen * len \<longrightarrow> bytes s' (q + i) = 0) \<and>
                 hdr s' = hdr s1 \<and> head s' = head s1 \<and> tail s' = tail s1 \<and>
                 last_break s' = last_break s1 \<and> os s' = os s1)" by blast
  qed
  from m 1 2 show ?thesis by blast
qed

text \<open>The witness: 5 elements of 8 bytes on the concrete heap; the byte at 0x100A7 was 0xA7
  and reads as zero afterwards.\<close>

theorem lcalloc_zero_fills_witness:
  "heap_ok heap4 [0x10000, 0x10080, 0x101C0, 0x10200] \<and>
   os_grants_fresh stub heap4 [0x10000, 0x10080, 0x101C0, 0x10200] (5 * 8) \<and>
   unat (5 * 8 :: 64 word) + 4127 < 2 ^ 64 \<and>
   (\<exists>q s1. lmalloc stub (5 * 8) heap4 = Some (q, s1) \<and>
           (q = 0 \<longrightarrow> lcalloc stub 5 8 heap4 = Some (0, s1)) \<and>
           (q \<noteq> 0 \<longrightarrow>
              unat (5 * 8 :: 64 word) \<le> usable_size (hdr s1) (blk_sub q 1) \<and>
              (\<exists>s'. lcalloc stub 5 8 heap4 = Some (q, s') \<and>
                 (\<forall>i. i < 5 * 8 \<longrightarrow> bytes s' (q + i) = 0) \<and>
                 hdr s' = hdr s1 \<and> head s' = head s1 \<and> tail s' = tail s1 \<and>
                 last_break s' = last_break s1 \<and> os s' = os s1))) \<and>
   (\<exists>s'. lcalloc stub 5 8 heap4 = Some (0x100A0, s') \<and> bytes s' 0x100A7 = 0 \<and>
      usable_size (hdr s') (blk_sub 0x100A0 1) = 64) \<and>
   bytes heap4 0x100A7 = 0xA7"
proof -
  have f: "os_grants_fresh stub heap4 [0x10000, 0x10080, 0x101C0, 0x10200] (5 * 8)"
    using heap4_fresh by simp
  have nw: "unat (5 * 8 :: 64 word) + 4127 < 2 ^ 64" by simp
  note t = lcalloc_zero_fills [OF heap4_ok f nw]
  have m: "lmalloc stub (5 * 8) heap4 = Some (0x100A0, snd (take_block 0x10080 3 heap4))"
    using heap4_lmalloc40 by (simp add: take_block_eq blk_add_def sizeof_memblk_def)
  have c: "lcalloc stub 5 8 heap4 =
      Some (0x100A0, (snd (take_block 0x10080 3 heap4))
         \<lparr>bytes := memset 0x100A0 0 40 (bytes (snd (take_block 0x10080 3 heap4)))\<rparr>)"
    using m by (simp add: lcalloc_def Let_def)
  have ok: "heap_ok heap4 ([0x10000] @ 0x10080 # [0x101C0, 0x10200])" using heap4_ok by simp
  have le: "(3 :: 64 word) \<le> size_f (hdr heap4 0x10080)" by (simp add: heap4_def)
  have u: "usable_size (hdr (snd (take_block 0x10080 3 heap4))) (blk_sub 0x100A0 1) = 64"
    using take_block_usable [OF ok _ le] by (simp add: blk_sub_def sizeof_memblk_def)
  have 2: "bytes heap4 0x100A7 = 0xA7" by (simp add: heap4_def)
  have 3: "\<exists>s'. lcalloc stub 5 8 heap4 = Some (0x100A0, s') \<and> bytes s' 0x100A7 = 0 \<and>
      usable_size (hdr s') (blk_sub 0x100A0 1) = 64"
    using u by (simp add: c memset_def)
  show ?thesis using t heap4_ok f nw 2 3 by blast
qed

text \<open>
  The claim as stated is for every count and length. For 3 elements of 0x5555555555555555
  bytes the product is \<open>2^64 - 1\<close>, which no multiplication overflow has shortened. The
  allocation succeeds, but the length passed to \<^verbatim>\<open>mmap\<close> wraps around (C5): the block returned
  is a mapping of one page with 4064 usable bytes, and \<^verbatim>\<open>lcalloc\<close> goes on to fill
  \<open>2^64 - 1\<close> bytes from its pointer. It cannot return a region of count times length
  bytes that reads as zero: such a region was not allocated.
\<close>

theorem lcalloc_fill_exceeds_block_counterexample:
  "heap_ok heap4 [0x10000, 0x10080, 0x101C0, 0x10200] \<and>
   os_grants_fresh stub heap4 [0x10000, 0x10080, 0x101C0, 0x10200] (3 * 0x5555555555555555) \<and>
   unat (3 * 0x5555555555555555 :: 64 word) = 2 ^ 64 - 1 \<and>
   mmap_len (3 * 0x5555555555555555) = 4096 \<and>
   (\<exists>s1. lmalloc stub (3 * 0x5555555555555555) heap4 = Some (0x7f0000012020, s1) \<and>
      next_f (hdr s1 0x7f0000012000) = LMEM_NEXT_MMAP \<and> size_f (hdr s1 0x7f0000012000) = 4096 \<and>
      usable_size (hdr s1) (blk_sub 0x7f0000012020 1) = 4064) \<and>
   \<not> (\<exists>q s'. lcalloc stub 3 0x5555555555555555 heap4 = Some (q, s') \<and> q \<noteq> 0 \<and>
          unat (3 * 0x5555555555555555 :: 64 word) \<le> usable_size (hdr s') (blk_sub q 1))"
proof -
  have pr: "(3 :: 64 word) * 0x5555555555555555 = - 1" by simp
  have pr2: "(18446744073709551615 :: 64 word) = - 1" by simp
  have u: "unat (- 1 :: 64 word) = 2 ^ 64 - 1"
    by (simp add: unsigned_minus_1_eq_mask mask_eq_exp_minus_1)
  have big: "LMEM_MMAP_TRESHOLD \<le> (- 1 :: 64 word)" by simp
  have l: "mmap_len (- 1) = 4096"
    by (simp add: mmap_len_def sizeof_memblk_def LMEM_PAGESIZE_def)
  have f: "os_grants_fresh stub heap4 [0x10000, 0x10080, 0x101C0, 0x10200] (- 1)"
    by (simp add: os_grants_fresh_def l stub_def heap4_def)
  let ?s1 = "st_size 0x7f0000012000 4096
              (st_next 0x7f0000012000 LMEM_NEXT_MMAP
                 (heap4\<lparr>os := (os heap4)\<lparr>next_map := 0x7f0000013000, maps_left := 2\<rparr>\<rparr>))"
  have m: "lmalloc stub (- 1) heap4 = Some (0x7f0000012020, ?s1)"
    by (simp add: lmalloc_mmap_path [OF big] l Let_def stub_def heap4_def
        MAP_FAILED_def blk_add_def sizeof_memblk_def)
  have h: "next_f (hdr ?s1 0x7f0000012000) = LMEM_NEXT_MMAP" "size_f (hdr ?s1 0x7f0000012000) = 4096"
    by (simp_all add: st_size_def st_next_def)
  have b: "blk_sub 0x7f0000012020 1 = 0x7f0000012000" by (simp add: blk_sub_def sizeof_memblk_def)
  have us: "usable_size (hdr ?s1) (blk_sub 0x7f0000012020 1) = 4064"
    by (simp add: usable_size_def b h)
  have c: "lcalloc stub 3 0x5555555555555555 heap4 =
      Some (0x7f0000012020, ?s1\<lparr>bytes := memset 0x7f0000012020 0 (- 1) (bytes ?s1)\<rparr>)"
    using m by (simp add: lcalloc_def Let_def pr2)
  have us': "usable_size (hdr (?s1\<lparr>bytes := memset 0x7f0000012020 0 (- 1) (bytes ?s1)\<rparr>))
      (blk_sub 0x7f0000012020 1) = 4064"
    using us by (simp add: usable_size_def)
  have n: "\<not> (\<exists>q s'. lcalloc stub 3 0x5555555555555555 heap4 = Some (q, s') \<and> q \<noteq> 0 \<and>
          unat (- 1 :: 64 word) \<le> usable_size (hdr s') (blk_sub q 1))"
    using us' by (auto simp: c u)
  have 1: "\<exists>s1. lmalloc stub (- 1) heap4 = Some (0x7f0000012020, s1) \<and>
      next_f (hdr s1 0x7f0000012000) = LMEM_NEXT_MMAP \<and> size_f (hdr s1 0x7f0000012000) = 4096 \<and>
      usable_size (hdr s1) (blk_sub 0x7f0000012020 1) = 4064"
    using m h us by blast
  show ?thesis using heap4_ok f u l 1 n unfolding pr by blast
qed

section \<open>Null pointers: lfree and lrealloc\<close>


section \<open>The size stored for a mapping\<close>

text \<open>
  C10. \<open>M\<close> lists the live mappings, each with its base and the length the system knows
  it by. \<open>mappings_inv s bs M\<close> says that the heap is well formed with invariant 2, that
  the header at the base of every live mapping holds the sentinel in \<^verbatim>\<open>next\<close> and the
  length of the mapping in \<^verbatim>\<open>size\<close>, and that no live mapping starts inside a block of
  the heap. It holds initially, with no mapping, and every public operation keeps it, for
  the mappings that are live afterwards:

  \<^item> \<^verbatim>\<open>lmalloc\<close> returns. At or above the threshold, when \<^verbatim>\<open>mmap\<close> succeeds, there is one
    more mapping: its base is the address \<^verbatim>\<open>mmap\<close> returned, its length the \<open>mmap_len len\<close>
    that \<^verbatim>\<open>mmap\<close> was called with, and the pointer returned is one header behind the base.
    Otherwise the mappings are the same (\<open>alloc_mappings\<close>).
  \<^item> \<^verbatim>\<open>lcalloc\<close>, and \<^verbatim>\<open>lrealloc\<close> of \<^verbatim>\<open>NULL\<close> or of a heap-resident pointer, have the effect
    of their \<^verbatim>\<open>lmalloc\<close> on the mappings, whenever they return.
  \<^item> \<^verbatim>\<open>lfree\<close> of \<^verbatim>\<open>NULL\<close> or of a heap-resident pointer leaves the mappings as they are.
  \<^item> \<^verbatim>\<open>lfree\<close> of the pointer of a live mapping with base \<open>b\<close> and length \<open>L\<close> does nothing
    but call \<^verbatim>\<open>munmap (b, L)\<close>, the whole mapping and nothing else; the other mappings stay.
  \<^item> \<^verbatim>\<open>lrealloc\<close> of the pointer of a live mapping with base \<open>b\<close> and length \<open>L\<close> calls
    \<^verbatim>\<open>mremap\<close> with \<open>b\<close>, the old length \<open>L\<close> and the new length \<open>mmap_len mlen\<close>. When that
    fails it returns \<^verbatim>\<open>NULL\<close> and the mappings are the same. When it succeeds with base
    \<open>nb\<close>, the mapping at \<open>b\<close> is replaced by one at \<open>nb\<close> of the new length.

  The length \<open>mmap_len len\<close> is a multiple of the page size, and it covers the header and
  the \<open>len\<close> bytes whenever the sum does not wrap around. The system is relied on to hand
  out memory that is new (\<open>os_grants_fresh\<close>) and to keep mappings and heap apart
  (\<open>os_keeps_apart\<close>, and the new base of a remap is not inside a block of the heap).
\<close>

theorem mapping_header_size:
  assumes "mappings_inv s bs M"
  shows
   "mappings_inv (lmem_init w) [] [] \<and>
    (os_grants_fresh K s bs len \<and> os_keeps_apart K s bs M len \<longrightarrow>
       (\<exists>q s' bs'. lmalloc K len s = Some (q, s') \<and>
          mappings_inv s' bs' (alloc_mappings K s len M) \<and>
          (LMEM_MMAP_TRESHOLD \<le> len \<and> granted K s len \<noteq> MAP_FAILED \<longrightarrow>
             q = blk_add (granted K s len) 1 \<and>
             sys_mmap K (mmap_len len) (os s) = (granted K s len, os s')))) \<and>
    (os_grants_fresh K s bs (n * l) \<and> os_keeps_apart K s bs M (n * l) \<longrightarrow>
       (\<forall>q s'. lcalloc K n l s = Some (q, s') \<longrightarrow>
          (\<exists>bs'. mappings_inv s' bs' (alloc_mappings K s (n * l) M)))) \<and>
    (os_grants_fresh K s bs rlen \<and> os_keeps_apart K s bs M rlen \<and>
     (p = 0 \<or> heap_resident s bs p) \<longrightarrow>
       (\<forall>q s'. lrealloc K p rlen s = Some (q, s') \<longrightarrow>
          (\<exists>bs'. mappings_inv s' bs' (alloc_mappings K s rlen M)))) \<and>
    (p = 0 \<or> heap_resident s bs p \<longrightarrow> (\<exists>bs'. mappings_inv (lfree K p s) bs' M)) \<and>
    (m \<noteq> 0 \<and> (blk_sub m 1, L) \<in> set M \<longrightarrow>
       lfree K m s = s\<lparr>os := sys_munmap K (blk_sub m 1) L (os s)\<rparr> \<and>
       mappings_inv (lfree K m s) bs (without_mapping (blk_sub m 1) M)) \<and>
    (m \<noteq> 0 \<and> (blk_sub m 1, L) \<in> set M \<and>
     sys_mremap K (blk_sub m 1) L (mmap_len mlen) (os s) = (nb, o2) \<longrightarrow>
       (nb = MAP_FAILED \<longrightarrow>
          lrealloc K m mlen s = Some (0, s\<lparr>os := o2\<rparr>) \<and> mappings_inv (s\<lparr>os := o2\<rparr>) bs M) \<and>
       (nb \<noteq> MAP_FAILED \<and> off_heap (hdr s) bs nb \<longrightarrow>
          (\<exists>s'. lrealloc K m mlen s = Some (blk_add nb 1, s') \<and> os s' = o2 \<and>
             mappings_inv s' bs
               (with_mapping nb (mmap_len mlen) (without_mapping (blk_sub m 1) M))))) \<and>
    mmap_len len AND (LMEM_PAGESIZE - 1) = 0 \<and>
    (unat len + 4127 < 2 ^ 64 \<longrightarrow> unat len + 32 \<le> unat (mmap_len len))"
proof -
  note inv = assms
  have 0: "mappings_inv (lmem_init w) [] []"
    using lmem_init_ok [of w] by (simp add: mappings_inv_def)
  have 1: "os_grants_fresh K s bs len \<and> os_keeps_apart K s bs M len \<longrightarrow>
       (\<exists>q s' bs'. lmalloc K len s = Some (q, s') \<and>
          mappings_inv s' bs' (alloc_mappings K s len M) \<and>
          (LMEM_MMAP_TRESHOLD \<le> len \<and> granted K s len \<noteq> MAP_FAILED \<longrightarrow>
             q = blk_add (granted K s len) 1 \<and>
             sys_mmap K (mmap_len len) (os s) = (granted K s len, os s')))"
    using lmalloc_inv [OF inv, of K len] by blast
  have 2: "os_grants_fresh K s bs (n * l) \<and> os_keeps_apart K s bs M (n * l) \<longrightarrow>
       (\<forall>q s'. lcalloc K n l s = Some (q, s') \<longrightarrow>
          (\<exists>bs'. mappings_inv s' bs' (alloc_mappings K s (n * l) M)))"
    using lcalloc_inv [OF inv, of K n l] by blast
  have 3: "os_grants_fresh K s bs rlen \<and> os_keeps_apart K s bs M rlen \<and>
     (p = 0 \<or> heap_resident s bs p) \<longrightarrow>
       (\<forall>q s'. lrealloc K p rlen s = Some (q, s') \<longrightarrow>
          (\<exists>bs'. mappings_inv s' bs' (alloc_mappings K s rlen M)))"
    using lrealloc_inv [OF inv, of K rlen p] by blast
  have 4: "p = 0 \<or> heap_resident s bs p \<longrightarrow> (\<exists>bs'. mappings_inv (lfree K p s) bs' M)"
    using lfree_inv [OF inv, of p K] by blast
  have 5: "m \<noteq> 0 \<and> (blk_sub m 1, L) \<in> set M \<longrightarrow>
       lfree K m s = s\<lparr>os := sys_munmap K (blk_sub m 1) L (os s)\<rparr> \<and>
       mappings_inv (lfree K m s) bs (without_mapping (blk_sub m 1) M)"
    using lfree_mapping [OF inv, of m L K] by blast
  have 6: "m \<noteq> 0 \<and> (blk_sub m 1, L) \<in> set M \<and>
     sys_mremap K (blk_sub m 1) L (mmap_len mlen) (os s) = (nb, o2) \<longrightarrow>
       (nb = MAP_FAILED \<longrightarrow>
          lrealloc K m mlen s = Some (0, s\<lparr>os := o2\<rparr>) \<and> mappings_inv (s\<lparr>os := o2\<rparr>) bs M) \<and>
       (nb \<noteq> MAP_FAILED \<and> off_heap (hdr s) bs nb \<longrightarrow>
          (\<exists>s'. lrealloc K m mlen s = Some (blk_add nb 1, s') \<and> os s' = o2 \<and>
             mappings_inv s' bs
               (with_mapping nb (mmap_len mlen) (without_mapping (blk_sub m 1) M))))"
    using lrealloc_mapping [OF inv, of m L K mlen nb o2] by blast
  have 7: "mmap_len len AND (LMEM_PAGESIZE - 1) = 0"
    by (simp add: mmap_len_def LMEM_PAGESIZE_def and.assoc)
  have 8: "unat len + 4127 < 2 ^ 64 \<longrightarrow> unat len + 32 \<le> unat (mmap_len len)"
    using mmap_len_room [of len] by blast
  from 0 1 2 3 4 5 6 7 8 show ?thesis by blast
qed

text \<open>The witness: the concrete heap with its mapping of 18 pages at 0x7f0000000000. A
  request of 100000 bytes needs 25 pages: \<^verbatim>\<open>lmalloc\<close> adds a mapping at 0x7f0000012000, and
  \<^verbatim>\<open>lrealloc\<close> of the pointer 0x7f0000000020 moves the mapping there. \<^verbatim>\<open>lfree\<close> of that
  pointer unmaps the 18 pages at 0x7f0000000000.\<close>

theorem mapping_header_size_witness:
  "mappings_inv heap4 [0x10000, 0x10080, 0x101C0, 0x10200] [(0x7f0000000000, 0x12000)] \<and>
   mappings_inv (lmem_init stub_os0) [] [] \<and>
   os_grants_fresh stub heap4 [0x10000, 0x10080, 0x101C0, 0x10200] 100000 \<and>
   os_keeps_apart stub heap4 [0x10000, 0x10080, 0x101C0, 0x10200] [(0x7f0000000000, 0x12000)] 100000 \<and>
   LMEM_MMAP_TRESHOLD \<le> (100000 :: 64 word) \<and> granted stub heap4 100000 = 0x7f0000012000 \<and>
   granted stub heap4 100000 \<noteq> MAP_FAILED \<and> mmap_len 100000 = 0x19000 \<and>
   alloc_mappings stub heap4 100000 [(0x7f0000000000, 0x12000)] =
     [(0x7f0000012000, 0x19000), (0x7f0000000000, 0x12000)] \<and>
   (\<exists>q s' bs'. lmalloc stub 100000 heap4 = Some (q, s') \<and>
      mappings_inv s' bs' (alloc_mappings stub heap4 100000 [(0x7f0000000000, 0x12000)]) \<and>
      q = blk_add (granted stub heap4 100000) 1 \<and>
      sys_mmap stub (mmap_len 100000) (os heap4) = (granted stub heap4 100000, os s')) \<and>
   os_grants_fresh stub heap4 [0x10000, 0x10080, 0x101C0, 0x10200] (5 * 8) \<and>
   os_keeps_apart stub heap4 [0x10000, 0x10080, 0x101C0, 0x10200] [(0x7f0000000000, 0x12000)] (5 * 8) \<and>
   (\<exists>q s' bs'. lcalloc stub 5 8 heap4 = Some (q, s') \<and>
      mappings_inv s' bs' (alloc_mappings stub heap4 (5 * 8) [(0x7f0000000000, 0x12000)])) \<and>
   os_grants_fresh stub heap4 [0x10000, 0x10080, 0x101C0, 0x10200] 16 \<and>
   os_keeps_apart stub heap4 [0x10000, 0x10080, 0x101C0, 0x10200] [(0x7f0000000000, 0x12000)] 16 \<and>
   heap_resident heap4 [0x10000, 0x10080, 0x101C0, 0x10200] 0x101E0 \<and>
   (\<exists>q s' bs'. lrealloc stub 0x101E0 16 heap4 = Some (q, s') \<and>
      mappings_inv s' bs' (alloc_mappings stub heap4 16 [(0x7f0000000000, 0x12000)])) \<and>
   alloc_mappings stub heap4 16 [(0x7f0000000000, 0x12000)] = [(0x7f0000000000, 0x12000)] \<and>
   (\<exists>bs'. mappings_inv (lfree stub 0x101E0 heap4) bs' [(0x7f0000000000, 0x12000)]) \<and>
   (0x7f0000000020 :: addr) \<noteq> 0 \<and>
   (blk_sub 0x7f0000000020 1, 0x12000) \<in> set [(0x7f0000000000, 0x12000 :: 64 word)] \<and>
   lfree stub 0x7f0000000020 heap4 =
     heap4\<lparr>os := sys_munmap stub (blk_sub 0x7f0000000020 1) 0x12000 (os heap4)\<rparr> \<and>
   mappings_inv (lfree stub 0x7f0000000020 heap4) [0x10000, 0x10080, 0x101C0, 0x10200]
     (without_mapping (blk_sub 0x7f0000000020 1) [(0x7f0000000000, 0x12000)]) \<and>
   without_mapping (blk_sub 0x7f0000000020 1) [(0x7f0000000000, 0x12000)] = [] \<and>
   sys_mremap stub (blk_sub 0x7f0000000020 1) 0x12000 (mmap_len 100000) (os heap4) =
     (0x7f0000012000, (os heap4)\<lparr>next_map := 0x7f000002B000\<rparr>) \<and>
   0x7f0000012000 \<noteq> MAP_FAILED \<and>
   off_heap (hdr heap4) [0x10000, 0x10080, 0x101C0, 0x10200] 0x7f0000012000 \<and>
   (\<exists>s'. lrealloc stub 0x7f0000000020 100000 heap4 = Some (blk_add 0x7f0000012000 1, s') \<and>
      os s' = (os heap4)\<lparr>next_map := 0x7f000002B000\<rparr> \<and>
      mappings_inv s' [0x10000, 0x10080, 0x101C0, 0x10200]
        (with_mapping 0x7f0000012000 (mmap_len 100000)
           (without_mapping (blk_sub 0x7f0000000020 1) [(0x7f0000000000, 0x12000)]))) \<and>
   with_mapping 0x7f0000012000 (mmap_len 100000)
     (without_mapping (blk_sub 0x7f0000000020 1) [(0x7f0000000000, 0x12000)]) =
     [(0x7f0000012000, 0x19000)] \<and>
   mmap_len 100000 AND (LMEM_PAGESIZE - 1) = 0 \<and>
   unat (100000 :: 64 word) + 4127 < 2 ^ 64 \<and>
   unat (100000 :: 64 word) + 32 \<le> unat (mmap_len 100000)"
proof -
  let ?L = "[0x10000, 0x10080, 0x101C0, 0x10200 :: addr]"
  let ?M = "[(0x7f0000000000, 0x12000)] :: (addr \<times> 64 word) list"
  have big: "LMEM_MMAP_TRESHOLD \<le> (100000 :: 64 word)"
    by (simp add: LMEM_MMAP_TRESHOLD_def LMEM_PAGESIZE_def)
  have small: "\<not> LMEM_MMAP_TRESHOLD \<le> (40 :: 64 word)" "\<not> LMEM_MMAP_TRESHOLD \<le> (16 :: 64 word)"
    by (simp_all add: LMEM_MMAP_TRESHOLD_def LMEM_PAGESIZE_def)
  have l: "mmap_len 100000 = 0x19000"
    by (simp add: mmap_len_def sizeof_memblk_def LMEM_PAGESIZE_def)
  have b: "blk_sub 0x7f0000000020 1 = 0x7f0000000000"
    by (simp add: blk_sub_def sizeof_memblk_def)
  have oh: "off_heap (hdr heap4) ?L 0x7f0000000000" "off_heap (hdr heap4) ?L 0x7f0000012000"
    by (simp_all add: in_block_def block_end_def heap4_def)
  have mo: "mappings_ok (hdr heap4) ?M" by (simp add: heap4_def LMEM_NEXT_MMAP_def)
  have inv: "mappings_inv heap4 ?L ?M"
    using heap4_ok heap4_naf mo oh(1) by (simp add: mappings_inv_def)
  have g: "granted stub heap4 100000 = 0x7f0000012000"
    using big by (simp add: granted_def l stub_def heap4_def)
  have gn: "granted stub heap4 100000 \<noteq> MAP_FAILED" by (simp add: g MAP_FAILED_def)
  have n: "0x7f0000012000 \<noteq> MAP_FAILED" by (simp add: MAP_FAILED_def)
  have f1: "os_grants_fresh stub heap4 ?L 100000"
    using big by (simp add: os_grants_fresh_def l stub_def heap4_def)
  have a1: "os_keeps_apart stub heap4 ?L ?M 100000"
    using big oh(2) by (simp add: os_keeps_apart_def g)
  have am1: "alloc_mappings stub heap4 100000 ?M = [(0x7f0000012000, 0x19000), (0x7f0000000000, 0x12000)]"
    using big gn by (simp add: alloc_mappings_def g l with_mapping_def without_mapping_def)
  have f2: "os_grants_fresh stub heap4 ?L (5 * 8)" using heap4_fresh by simp
  have g40: "granted stub heap4 40 = 0x10260"
    using small(1) by (simp add: granted_def bu40 new_memblk_def heap4_def stub_def Let_def
        blk_add_def blk_sub_def sizeof_memblk_def BRK_FAILED_def)
  have g16: "granted stub heap4 16 = 0x10260"
    using small(2) by (simp add: granted_def bu16 new_memblk_def heap4_def stub_def Let_def
        blk_add_def blk_sub_def sizeof_memblk_def BRK_FAILED_def)
  have a40: "os_keeps_apart stub heap4 ?L ?M 40"
    using small(1) by (simp add: os_keeps_apart_def in_new_heap_def g40 bu40)
  then have a2: "os_keeps_apart stub heap4 ?L ?M (5 * 8)" by simp
  have a3: "os_keeps_apart stub heap4 ?L ?M 16"
    using small(2) by (simp add: os_keeps_apart_def in_new_heap_def g16 bu16)
  have am3: "alloc_mappings stub heap4 16 ?M = ?M"
    using small(2) by (simp add: alloc_mappings_def)
  have r: "(0x101E0 :: addr) = 0 \<or> heap_resident heap4 ?L 0x101E0"
    using heap4_resident by simp
  have m0: "(0x7f0000000020 :: addr) \<noteq> 0" by simp
  have e: "(blk_sub 0x7f0000000020 1, 0x12000) \<in> set ?M" by (simp add: b)
  have wo: "without_mapping (blk_sub 0x7f0000000020 1) ?M = []"
    by (simp add: without_mapping_def b)
  have wi: "with_mapping 0x7f0000012000 (mmap_len 100000)
      (without_mapping (blk_sub 0x7f0000000020 1) ?M) = [(0x7f0000012000, 0x19000)]"
    by (simp add: with_mapping_def without_mapping_def l b)
  have rm: "sys_mremap stub (blk_sub 0x7f0000000020 1) 0x12000 (mmap_len 100000) (os heap4) =
     (0x7f0000012000, (os heap4)\<lparr>next_map := 0x7f000002B000\<rparr>)"
    by (simp add: l b stub_def heap4_def)
  have nw: "unat (100000 :: 64 word) + 4127 < 2 ^ 64" by simp
  from lcalloc_post [OF heap4_ok heap4_naf f2]
  have c: "\<exists>q s'. lcalloc stub 5 8 heap4 = Some (q, s')" by blast
  from lrealloc_null_or_heap_post [OF heap4_ok heap4_naf heap4_fresh16 r]
  have d: "\<exists>q s'. lrealloc stub 0x101E0 16 heap4 = Some (q, s')" by blast
  note t = mapping_header_size [OF inv, where w = stub_os0 and K = stub and len = 100000
      and n = 5 and l = 8 and rlen = 16 and p = "0x101E0" and m = "0x7f0000000020"
      and L = "0x12000" and mlen = 100000 and nb = "0x7f0000012000"
      and ?o2.0 = "(os heap4)\<lparr>next_map := 0x7f000002B000\<rparr>"]
  show ?thesis
    using t inv big g gn n l f1 a1 am1 f2 a2 heap4_fresh16 a3 heap4_resident r am3 m0 e wo wi rm
      oh(2) nw c d
    by blast
qed

end
